theory Spec2Isabelle
  imports Main "HOL-Library.Sublist"
begin

section \<open>Graphs, vertex subsets and predicates\<close>

text \<open>
  A graph of order \<open>n\<close> is the list of its \<open>n\<close> adjacency lists: vertex \<open>v\<close> is the index
  \<open>v\<close> and \<open>g ! v\<close> lists its neighbours. A set of vertices is a sorted list (the source
  passes tuples produced by \<open>itertools.combinations\<close>).
\<close>

type_synonym graph = "nat list list"

text \<open>The exceptions the modelled code can raise.\<close>

datatype error = IndexError | AssertionError

text \<open>
  A predicate takes a graph and a vertex list. In Python the call either returns a
  boolean or raises; the raise is the \<open>Inl\<close> branch.
\<close>

type_synonym predicate = "graph \<Rightarrow> nat list \<Rightarrow> error + bool"

text \<open>The graph invariant of the representation: every adjacency list is duplicate-free,
  names vertices of the graph only, never the vertex itself, and adjacency is symmetric.\<close>

definition wf_graph :: "graph \<Rightarrow> bool" where
  "wf_graph g \<longleftrightarrow>
     (\<forall>v \<in> {0..<length g}. distinct (g ! v) \<and> v \<notin> set (g ! v) \<and>
        (\<forall>u \<in> set (g ! v). u < length g \<and> v \<in> set (g ! u)))"

text \<open>A vertex subset of \<open>g\<close>: ascending, duplicate-free, drawn from the vertex range.\<close>

definition vertex_subset :: "graph \<Rightarrow> nat list \<Rightarrow> bool" where
  "vertex_subset g s \<longleftrightarrow> sorted_wrt (<) s \<and> (\<forall>v \<in> set s. v < length g)"

text \<open>\<open>f\<close> returns a boolean (does not raise) on every vertex subset of \<open>g\<close>.\<close>

definition returns_bool :: "predicate \<Rightarrow> graph \<Rightarrow> bool" where
  "returns_bool f g \<longleftrightarrow> (\<forall>s. vertex_subset g s \<longrightarrow> (\<exists>t. f g s = Inr t))"

section \<open>Checking for f-sets (genramsey.py)\<close>

text \<open>
  \<open>itertools.combinations(xs, r)\<close>: the length-\<open>r\<close> subsequences of \<open>xs\<close>, emitted in
  lexicographic order of the positions chosen.
\<close>

fun combinations :: "'a list \<Rightarrow> nat \<Rightarrow> 'a list list" where
  "combinations xs 0 = [[]]"
| "combinations [] (Suc r) = []"
| "combinations (x # xs) (Suc r) =
     map ((#) x) (combinations xs r) @ combinations xs (Suc r)"

text \<open>
  The loop \<^verbatim>\<open>for s in ...: if f(g, s): return True\<close> followed by
  \<^verbatim>\<open>return False\<close>. A raise inside the predicate leaves the loop.
\<close>

fun fset_search :: "(nat list \<Rightarrow> error + bool) \<Rightarrow> nat list list \<Rightarrow> error + bool" where
  "fset_search p [] = Inr False"
| "fset_search p (s # ss) =
     (case p s of
        Inl e \<Rightarrow> Inl e
      | Inr t \<Rightarrow> if t then Inr True else fset_search p ss)"

definition has_fset :: "predicate \<Rightarrow> int \<Rightarrow> graph \<Rightarrow> error + bool" where
  "has_fset f b g =
     (if b < 0 then Inr False
      else let n = length g in
        if b > int n then Inr False
        else fset_search (f g) (combinations [0..<n] (nat b)))"

text \<open>In the loop of \<open>has_fset_with_last\<close> the guards have established \<open>1 \<le> b \<le> n\<close>,
  so \<open>n - 1\<close> and \<open>b - 1\<close> are nonnegative there.\<close>

definition has_fset_with_last :: "predicate \<Rightarrow> int \<Rightarrow> graph \<Rightarrow> error + bool" where
  "has_fset_with_last f b g =
     (if b < 1 then Inr False
      else let n = length g in
        if b > int n then Inr False
        else fset_search (\<lambda>ss. f g (ss @ [n - 1]))
               (combinations [0..<n - 1] (nat (b - 1))))"

text \<open>Lexicographic comparison of vertex lists.\<close>

definition lex_less :: "nat list \<Rightarrow> nat list \<Rightarrow> bool" where
  "lex_less s t \<longleftrightarrow> (s, t) \<in> lexord {(x, y). x < y}"

section \<open>Predicates of genramsey.py\<close>

text \<open>
  \<open>is_independent\<close>: for each \<open>v\<close> in \<open>s\<close>, the inner loop returns False at the first
  neighbour of \<open>v\<close> that lies in \<open>s\<close>. Reading \<open>g[v]\<close> raises IndexError when \<open>v\<close> is
  not a vertex of \<open>g\<close>.
\<close>

fun independent_loop :: "graph \<Rightarrow> nat list \<Rightarrow> nat list \<Rightarrow> error + bool" where
  "independent_loop g s [] = Inr True"
| "independent_loop g s (v # vs) =
     (if v < length g then
        if list_ex (\<lambda>x. x \<in> set s) (g ! v) then Inr False
        else independent_loop g s vs
      else Inl IndexError)"

definition is_independent :: predicate where
  "is_independent g s = independent_loop g s s"

text \<open>
  \<open>is_clique\<close>: the inner loop over \<open>x\<close> in \<open>s\<close> reads \<open>g[v]\<close> only when \<open>x \<noteq> v\<close>.
  Its result \<open>Inr True\<close> means that the loop ran to its end.
\<close>

fun clique_inner :: "graph \<Rightarrow> nat \<Rightarrow> nat list \<Rightarrow> error + bool" where
  "clique_inner g v [] = Inr True"
| "clique_inner g v (x # xs) =
     (if x \<noteq> v then
        if v < length g then
          if x \<notin> set (g ! v) then Inr False else clique_inner g v xs
        else Inl IndexError
      else clique_inner g v xs)"

fun clique_loop :: "graph \<Rightarrow> nat list \<Rightarrow> nat list \<Rightarrow> error + bool" where
  "clique_loop g s [] = Inr True"
| "clique_loop g s (v # vs) =
     (case clique_inner g v s of
        Inl e \<Rightarrow> Inl e
      | Inr t \<Rightarrow> if t then clique_loop g s vs else Inr False)"

definition is_clique :: predicate where
  "is_clique g s = clique_loop g s s"

section \<open>Induced subgraphs and induced-hereditary predicates\<close>

text \<open>
  \<open>\<phi>\<close> places the graph \<open>h\<close> inside \<open>g\<close> as an induced subgraph: it is injective on
  the vertices of \<open>h\<close> and two vertices of \<open>h\<close> are adjacent in \<open>h\<close> exactly if their
  images are adjacent in \<open>g\<close>.
\<close>

definition induced_embedding :: "(nat \<Rightarrow> nat) \<Rightarrow> graph \<Rightarrow> graph \<Rightarrow> bool" where
  "induced_embedding \<phi> h g \<longleftrightarrow>
     inj_on \<phi> {0..<length h} \<and>
     (\<forall>u < length h. \<phi> u < length g) \<and>
     (\<forall>u < length h. \<forall>v < length h. v \<in> set (h ! u) \<longleftrightarrow> \<phi> v \<in> set (g ! \<phi> u))"

text \<open>
  The docstring of genramsey.py: a predicate \<open>f\<close> is induced-hereditary when, for \<open>h\<close> an
  induced subgraph of a graph \<open>g\<close> and \<open>s\<close> a set of vertices of \<open>h\<close>, the set \<open>s\<close> is an
  f-set in \<open>h\<close> iff it is an f-set in \<open>g\<close>. In \<open>g\<close> the set is the ascending list of the
  images of its vertices.
\<close>

definition induced_hereditary :: "predicate \<Rightarrow> bool" where
  "induced_hereditary f \<longleftrightarrow>
     (\<forall>h g \<phi> s. wf_graph h \<and> wf_graph g \<and> induced_embedding \<phi> h g \<and> vertex_subset h s \<longrightarrow>
        (f h s = Inr True \<longleftrightarrow> f g (sorted_list_of_set (\<phi> ` set s)) = Inr True))"

text \<open>The subgraph of \<open>g\<close> induced by the vertices \<open>0 .. m-1\<close>.\<close>

definition induced_prefix :: "graph \<Rightarrow> nat \<Rightarrow> graph" where
  "induced_prefix g m = map (filter (\<lambda>x. x < m)) (take m g)"

text \<open>The ascending list of the images of the vertices of \<open>s\<close>.\<close>

definition image_list :: "(nat \<Rightarrow> nat) \<Rightarrow> nat list \<Rightarrow> nat list" where
  "image_list \<phi> s = sorted_list_of_set (\<phi> ` set s)"

section \<open>k-sparse sets (sparseramsey.py)\<close>

text \<open>
  The inner loop of \<open>is_k_sparse\<close> over the neighbours \<open>x\<close> of \<open>v\<close>, with the counter
  \<open>d\<close>: False means that the function returns False, True that the loop ran to its end.
\<close>

fun sparse_count :: "int \<Rightarrow> nat list \<Rightarrow> nat list \<Rightarrow> int \<Rightarrow> bool" where
  "sparse_count k s [] d = True"
| "sparse_count k s (x # xs) d =
     (if x \<in> set s then
        if d + 1 > k then False else sparse_count k s xs (d + 1)
      else sparse_count k s xs d)"

fun sparse_loop :: "int \<Rightarrow> graph \<Rightarrow> nat list \<Rightarrow> nat list \<Rightarrow> error + bool" where
  "sparse_loop k g s [] = Inr True"
| "sparse_loop k g s (v # vs) =
     (if v < length g then
        if sparse_count k s (g ! v) 0 then sparse_loop k g s vs else Inr False
      else Inl IndexError)"

definition is_k_sparse :: "int \<Rightarrow> predicate" where
  "is_k_sparse k g s = sparse_loop k g s s"

definition make_k_sparse_func :: "int \<Rightarrow> predicate" where
  "make_k_sparse_func k = is_k_sparse k"

text \<open>
  The inner loop of \<open>is_k_sparse_compl\<close> over \<open>x\<close> in \<open>s\<close>; \<open>g[v]\<close> is read only when
  \<open>x \<noteq> v\<close>. \<open>Inr True\<close> means that the loop ran to its end.
\<close>

fun sparse_compl_count :: "int \<Rightarrow> graph \<Rightarrow> nat \<Rightarrow> nat list \<Rightarrow> int \<Rightarrow> error + bool" where
  "sparse_compl_count k g v [] d = Inr True"
| "sparse_compl_count k g v (x # xs) d =
     (if x \<noteq> v then
        if v < length g then
          if x \<notin> set (g ! v) then
            if d + 1 > k then Inr False else sparse_compl_count k g v xs (d + 1)
          else sparse_compl_count k g v xs d
        else Inl IndexError
      else sparse_compl_count k g v xs d)"

fun sparse_compl_loop :: "int \<Rightarrow> graph \<Rightarrow> nat list \<Rightarrow> nat list \<Rightarrow> error + bool" where
  "sparse_compl_loop k g s [] = Inr True"
| "sparse_compl_loop k g s (v # vs) =
     (case sparse_compl_count k g v s 0 of
        Inl e \<Rightarrow> Inl e
      | Inr t \<Rightarrow> if t then sparse_compl_loop k g s vs else Inr False)"

definition is_k_sparse_compl :: "int \<Rightarrow> predicate" where
  "is_k_sparse_compl k g s = sparse_compl_loop k g s s"

definition make_k_sparse_compl_func :: "int \<Rightarrow> predicate" where
  "make_k_sparse_compl_func k = is_k_sparse_compl k"

text \<open>The complement of \<open>g\<close> on the same vertex set: \<open>u\<close> and \<open>v\<close> are adjacent exactly
  if they are distinct and not adjacent in \<open>g\<close>.\<close>

definition complement :: "graph \<Rightarrow> graph" where
  "complement g =
     map (\<lambda>v. filter (\<lambda>u. u \<noteq> v \<and> u \<notin> set (g ! v)) [0..<length g]) [0..<length g]"

section \<open>k-divided sets (dividedramsey.py)\<close>

text \<open>
  \<open>is_k_divided\<close> and \<open>is_k_divided_compl\<close> are the same search and differ in one test:
  in the loop over \<open>y\<close>, the first skips \<open>y\<close> when \<^verbatim>\<open>y not in g[x]\<close>, the second when
  \<^verbatim>\<open>y in g[x]\<close>. The model takes that test as the parameter \<open>skip\<close>, applied to the
  adjacency list \<open>g[x]\<close> and to \<open>y\<close>.
\<close>

definition skip_divided :: "nat list \<Rightarrow> nat \<Rightarrow> bool" where
  "skip_divided adj y \<longleftrightarrow> y \<notin> set adj"

definition skip_divided_compl :: "nat list \<Rightarrow> nat \<Rightarrow> bool" where
  "skip_divided_compl adj y \<longleftrightarrow> y \<in> set adj"

text \<open>The variables of the search: the marks, the stack (its top is its last element)
  and the size of the component found so far.\<close>

record dfs_state =
  pushed :: "bool list"
  stack :: "nat list"
  compsize :: int

text \<open>How a loop ends: by a raise, by a \<^verbatim>\<open>return\<close> of the function, or by running to
  its end with the variables as they then are.\<close>

datatype 'a flow = Raise error | Return bool | Next 'a

text \<open>
  The loop \<^verbatim>\<open>for y in s\<close> for the popped vertex \<open>x\<close>. Reading \<open>pushed[y]\<close> and
  \<open>g[x]\<close> raises IndexError out of range; \<open>g[x]\<close> is read only when \<open>pushed[y]\<close> is False.
\<close>

fun divided_scan ::
  "(nat list \<Rightarrow> nat \<Rightarrow> bool) \<Rightarrow> int \<Rightarrow> graph \<Rightarrow> nat \<Rightarrow> nat list \<Rightarrow> dfs_state \<Rightarrow> dfs_state flow"
where
  "divided_scan skip k g x [] st = Next st"
| "divided_scan skip k g x (y # ys) st =
     (if y < length (pushed st) then
        if pushed st ! y then divided_scan skip k g x ys st
        else if x < length g then
          if skip (g ! x) y then divided_scan skip k g x ys st
          else if compsize st \<ge> k then Return False
          else divided_scan skip k g x ys
                 \<lparr>pushed = (pushed st)[y := True], stack = stack st @ [y],
                  compsize = compsize st + 1\<rparr>
        else Raise IndexError
      else Raise IndexError)"

text \<open>The number of unmarked vertices.\<close>

definition unpushed :: "dfs_state \<Rightarrow> nat" where
  "unpushed st = length (filter Not (pushed st))"

lemma unpushed_mark:
  "y < length ps \<Longrightarrow> \<not> ps ! y \<Longrightarrow>
   length (filter Not (ps[y := True])) + 1 = length (filter Not ps)"
proof (induction ps arbitrary: y)
  case Nil
  then show ?case by simp
next
  case (Cons p ps)
  show ?case
  proof (cases y)
    case 0
    then show ?thesis using Cons.prems by simp
  next
    case (Suc z)
    then have "z < length ps" "\<not> ps ! z" using Cons.prems by simp_all
    from Cons.IH [OF this] show ?thesis using Suc by simp
  qed
qed

lemma divided_scan_measure:
  "divided_scan skip k g x ys st = Next st' \<Longrightarrow>
   2 * unpushed st' + length (stack st') \<le> 2 * unpushed st + length (stack st)"
proof (induction ys arbitrary: st)
  case Nil
  then show ?case by simp
next
  case (Cons y ys)
  show ?case
  proof (cases "y < length (pushed st) \<and> \<not> pushed st ! y \<and> x < length g \<and>
      \<not> skip (g ! x) y \<and> \<not> compsize st \<ge> k")
    case True
    let ?st = "\<lparr>pushed = (pushed st)[y := True], stack = stack st @ [y],
      compsize = compsize st + 1\<rparr>"
    from True Cons.prems have "divided_scan skip k g x ys ?st = Next st'" by simp
    from Cons.IH [OF this]
    have "2 * unpushed st' + length (stack st') \<le> 2 * unpushed ?st + length (stack ?st)" .
    moreover have "unpushed ?st + 1 = unpushed st"
      using True unpushed_mark [of y "pushed st"] by (simp add: unpushed_def)
    ultimately show ?thesis by simp
  next
    case False
    with Cons.prems have "divided_scan skip k g x ys st = Next st'"
      by (auto split: if_splits)
    from Cons.IH [OF this] show ?thesis .
  qed
qed

text \<open>The loop \<^verbatim>\<open>while stack\<close>: pop the top of the stack and scan \<open>s\<close> for it.\<close>

function divided_while ::
  "(nat list \<Rightarrow> nat \<Rightarrow> bool) \<Rightarrow> int \<Rightarrow> graph \<Rightarrow> nat list \<Rightarrow> dfs_state \<Rightarrow> dfs_state flow"
where
  "divided_while skip k g s st =
     (if stack st = [] then Next st
      else case divided_scan skip k g (last (stack st)) s
                  (st\<lparr>stack := butlast (stack st)\<rparr>) of
             Next st' \<Rightarrow> divided_while skip k g s st'
           | Return b \<Rightarrow> Return b
           | Raise e \<Rightarrow> Raise e)"
  by pat_completeness auto
termination
proof (relation "measure (\<lambda>(skip, k, g, s, st). 2 * unpushed st + length (stack st))")
  show "wf (measure (\<lambda>(skip, k, g, s, st). 2 * unpushed st + length (stack st)))"
    by simp
next
  fix skip k g s st st'
  assume ne: "stack st \<noteq> []"
    and sc: "divided_scan skip k g (last (stack st)) s
               (st\<lparr>stack := butlast (stack st)\<rparr>) = Next st'"
  have "2 * unpushed st' + length (stack st') \<le>
      2 * unpushed (st\<lparr>stack := butlast (stack st)\<rparr>) +
      length (stack (st\<lparr>stack := butlast (stack st)\<rparr>))"
    by (rule divided_scan_measure [OF sc])
  also have "\<dots> < 2 * unpushed st + length (stack st)"
    using ne by (simp add: unpushed_def)
  finally show "((skip, k, g, s, st'), (skip, k, g, s, st)) \<in>
      measure (\<lambda>(skip, k, g, s, st). 2 * unpushed st + length (stack st))"
    by simp
qed

text \<open>
  The loop \<^verbatim>\<open>for v in s\<close>, with the marks as they stand. Reading \<open>pushed[v]\<close>
  raises IndexError when \<open>v\<close> is not a vertex of \<open>g\<close>.
\<close>

fun divided_loop ::
  "(nat list \<Rightarrow> nat \<Rightarrow> bool) \<Rightarrow> int \<Rightarrow> graph \<Rightarrow> nat list \<Rightarrow> nat list \<Rightarrow> bool list \<Rightarrow> error + bool"
where
  "divided_loop skip k g s [] ps = Inr True"
| "divided_loop skip k g s (v # vs) ps =
     (if v < length ps then
        if ps ! v then divided_loop skip k g s vs ps
        else case divided_while skip k g s
                    \<lparr>pushed = ps[v := True], stack = [v], compsize = 1\<rparr> of
               Next st \<Rightarrow> divided_loop skip k g s vs (pushed st)
             | Return b \<Rightarrow> Inr b
             | Raise e \<Rightarrow> Inl e
      else Inl IndexError)"

definition is_k_divided :: "int \<Rightarrow> predicate" where
  "is_k_divided k g s = divided_loop skip_divided k g s s (replicate (length g) False)"

definition is_k_divided_compl :: "int \<Rightarrow> predicate" where
  "is_k_divided_compl k g s =
     divided_loop skip_divided_compl k g s s (replicate (length g) False)"

text \<open>Both constructors assert \<open>k \<ge> 1\<close> before they return the predicate.\<close>

definition make_k_divided_func :: "int \<Rightarrow> error + predicate" where
  "make_k_divided_func k = (if k \<ge> 1 then Inr (is_k_divided k) else Inl AssertionError)"

definition make_k_divided_compl_func :: "int \<Rightarrow> error + predicate" where
  "make_k_divided_compl_func k =
     (if k \<ge> 1 then Inr (is_k_divided_compl k) else Inl AssertionError)"

section \<open>Connected components of an induced subgraph\<close>

text \<open>The edges of the subgraph of \<open>g\<close> induced by \<open>s\<close>, as ordered pairs.\<close>

definition induced_adjacency :: "graph \<Rightarrow> nat list \<Rightarrow> (nat \<times> nat) set" where
  "induced_adjacency g s = {(x, y). x \<in> set s \<and> y \<in> set s \<and> y \<in> set (g ! x)}"

text \<open>The vertices that a path of the relation \<open>E\<close> reaches from \<open>v\<close>: for a symmetric
  \<open>E\<close>, the connected component of \<open>v\<close>.\<close>

definition comp_of :: "(nat \<times> nat) set \<Rightarrow> nat \<Rightarrow> nat set" where
  "comp_of E v = {u. (v, u) \<in> E\<^sup>*}"

text \<open>The connected component of \<open>v\<close> in the subgraph of \<open>g\<close> induced by \<open>s\<close>.\<close>

definition component_of :: "graph \<Rightarrow> nat list \<Rightarrow> nat \<Rightarrow> nat set" where
  "component_of g s v = comp_of (induced_adjacency g s) v"

text \<open>The marked vertices.\<close>

definition marked :: "bool list \<Rightarrow> nat set" where
  "marked ps = {y. y < length ps \<and> ps ! y}"

text \<open>
  The setting of the search: \<open>s\<close> is a vertex subset of \<open>g\<close>, and \<open>E\<close> is a symmetric
  relation on \<open>s\<close> that holds of \<open>x\<close> and \<open>y\<close> exactly if the loop over \<open>y\<close> does not
  skip \<open>y\<close> for \<open>x\<close>.
\<close>

definition dfs_ctx ::
  "(nat list \<Rightarrow> nat \<Rightarrow> bool) \<Rightarrow> graph \<Rightarrow> nat list \<Rightarrow> (nat \<times> nat) set \<Rightarrow> bool" where
  "dfs_ctx skip g s E \<longleftrightarrow>
     vertex_subset g s \<and> E \<subseteq> set s \<times> set s \<and> sym E \<and>
     (\<forall>x \<in> set s. \<forall>y \<in> set s. (x, y) \<in> E \<longleftrightarrow> \<not> skip (g ! x) y)"

text \<open>
  The invariant of the search of one component, started at \<open>v0\<close> when the vertices \<open>P0\<close>
  were marked: the vertices marked since are in the component of \<open>v0\<close>, \<open>compsize\<close>
  counts them and is at most \<open>k\<close>, and the stack holds some of them.
\<close>

definition core_inv ::
  "(nat \<times> nat) set \<Rightarrow> nat \<Rightarrow> int \<Rightarrow> nat set \<Rightarrow> nat \<Rightarrow> dfs_state \<Rightarrow> bool" where
  "core_inv E n k P0 v0 st \<longleftrightarrow>
     length (pushed st) = n \<and> P0 \<subseteq> marked (pushed st) \<and>
     v0 \<in> marked (pushed st) - P0 \<and>
     marked (pushed st) - P0 \<subseteq> comp_of E v0 \<and>
     compsize st = int (card (marked (pushed st) - P0)) \<and> compsize st \<le> k \<and>
     set (stack st) \<subseteq> marked (pushed st) - P0"

text \<open>Every vertex found, not on the stack and not in \<open>X\<close>, has all its neighbours marked.\<close>

definition closed_except ::
  "(nat \<times> nat) set \<Rightarrow> nat set \<Rightarrow> dfs_state \<Rightarrow> nat set \<Rightarrow> bool" where
  "closed_except E P0 st X \<longleftrightarrow>
     (\<forall>x \<in> marked (pushed st) - P0 - set (stack st) - X.
        \<forall>y. (x, y) \<in> E \<longrightarrow> y \<in> marked (pushed st))"

definition while_inv ::
  "(nat \<times> nat) set \<Rightarrow> nat \<Rightarrow> int \<Rightarrow> nat set \<Rightarrow> nat \<Rightarrow> dfs_state \<Rightarrow> bool" where
  "while_inv E n k P0 v0 st \<longleftrightarrow> core_inv E n k P0 v0 st \<and> closed_except E P0 st {}"

text \<open>The invariant of the scan for the popped vertex \<open>x\<close>, after the vertices \<open>ds\<close>.\<close>

definition scan_inv ::
  "(nat \<times> nat) set \<Rightarrow> nat \<Rightarrow> int \<Rightarrow> nat set \<Rightarrow> nat \<Rightarrow> nat \<Rightarrow> nat list \<Rightarrow> dfs_state \<Rightarrow> bool"
where
  "scan_inv E n k P0 v0 x ds st \<longleftrightarrow>
     core_inv E n k P0 v0 st \<and> x \<in> marked (pushed st) - P0 \<and>
     closed_except E P0 st {x} \<and>
     (\<forall>y \<in> set ds. (x, y) \<in> E \<longrightarrow> y \<in> marked (pushed st))"

text \<open>The invariant of the loop over \<open>s\<close>: the marked vertices are closed under \<open>E\<close> and
  each lies in a component of at most \<open>k\<close> vertices.\<close>

definition outer_inv :: "(nat \<times> nat) set \<Rightarrow> nat \<Rightarrow> int \<Rightarrow> bool list \<Rightarrow> bool" where
  "outer_inv E n k ps \<longleftrightarrow>
     length ps = n \<and>
     (\<forall>x \<in> marked ps. \<forall>y. (x, y) \<in> E \<longrightarrow> y \<in> marked ps) \<and>
     (\<forall>v \<in> marked ps. int (card (comp_of E v)) \<le> k)"

section \<open>Finding extremal graphs (genramsey.py)\<close>

text \<open>
  The functions that genramsey.py takes from the module \<open>isograph\<close>, which is not part of
  the modelled sources: \<open>graphs n\<close> lists the graphs of order \<open>n\<close>, \<open>powerset xs\<close> the
  subsets of \<open>xs\<close>, and \<open>unique_iso gs\<close> keeps one graph of each isomorphism class of
  \<open>gs\<close>. The engine is modelled over any such triple.
\<close>

record isograph =
  graphs :: "nat \<Rightarrow> graph list"
  powerset :: "nat list \<Rightarrow> nat list list"
  unique_iso :: "graph list \<Rightarrow> graph list"

text \<open>
  The test \<^verbatim>\<open>not chk(f1, b1, g) and not chk(f2, b2, g)\<close>, where \<open>chk\<close> is \<open>has_fset\<close>
  or \<open>has_fset_with_last\<close>: the second check runs only when the first is False.
\<close>

definition passes ::
  "(predicate \<Rightarrow> int \<Rightarrow> graph \<Rightarrow> error + bool) \<Rightarrow>
   predicate \<Rightarrow> predicate \<Rightarrow> int \<Rightarrow> int \<Rightarrow> graph \<Rightarrow> error + bool" where
  "passes chk f1 f2 b1 b2 g =
     (case chk f1 b1 g of
        Inl e \<Rightarrow> Inl e
      | Inr t1 \<Rightarrow>
          if t1 then Inr False
          else (case chk f2 b2 g of Inl e \<Rightarrow> Inl e | Inr t2 \<Rightarrow> Inr (\<not> t2)))"

text \<open>A loop that yields the graphs that pass a test; a raise in the test ends it.\<close>

fun filter_graphs :: "(graph \<Rightarrow> error + bool) \<Rightarrow> graph list \<Rightarrow> error + graph list" where
  "filter_graphs t [] = Inr []"
| "filter_graphs t (g # gs) =
     (case t g of
        Inl e \<Rightarrow> Inl e
      | Inr keep \<Rightarrow>
          (case filter_graphs t gs of
             Inl e \<Rightarrow> Inl e
           | Inr r \<Rightarrow> Inr (if keep then g # r else r)))"

definition counterexamples_zero ::
  "isograph \<Rightarrow> predicate \<Rightarrow> predicate \<Rightarrow> int \<Rightarrow> int \<Rightarrow> error + graph list" where
  "counterexamples_zero lib f1 f2 b1 b2 =
     filter_graphs (passes has_fset f1 f2 b1 b2) (graphs lib 0)"

text \<open>
  The loop \<^verbatim>\<open>for v in vset: g[v] = g[v] + [n-1]\<close> on the candidate \<open>g\<close>, with \<open>m\<close> for
  \<open>n-1\<close>. The assignment raises IndexError when \<open>v\<close> is not an index of \<open>g\<close>.
\<close>

fun add_edges :: "graph \<Rightarrow> nat list \<Rightarrow> nat \<Rightarrow> error + graph" where
  "add_edges g [] m = Inr g"
| "add_edges g (v # vs) m =
     (if v < length g then add_edges (g[v := g ! v @ [m]]) vs m else Inl IndexError)"

text \<open>The candidate \<^verbatim>\<open>oldg + [list(vset)]\<close> with the new edges added.\<close>

definition candidate :: "graph \<Rightarrow> nat list \<Rightarrow> nat \<Rightarrow> error + graph" where
  "candidate oldg vset n = add_edges (oldg @ [vset]) vset (n - 1)"

text \<open>The loop over the subsets \<open>vset\<close> for one graph \<open>oldg\<close>, yielding the candidates
  that pass the test \<open>t\<close>.\<close>

fun extensions ::
  "(graph \<Rightarrow> error + bool) \<Rightarrow> graph \<Rightarrow> nat list list \<Rightarrow> nat \<Rightarrow> error + graph list" where
  "extensions t oldg [] n = Inr []"
| "extensions t oldg (vset # vsets) n =
     (case candidate oldg vset n of
        Inl e \<Rightarrow> Inl e
      | Inr g \<Rightarrow>
          (case t g of
             Inl e \<Rightarrow> Inl e
           | Inr keep \<Rightarrow>
               (case extensions t oldg vsets n of
                  Inl e \<Rightarrow> Inl e
                | Inr r \<Rightarrow> Inr (if keep then g # r else r))))"

text \<open>The helper \<open>counterexamples_up_big_list\<close>: the loop over the graphs of \<open>old\<close>.\<close>

fun counterexamples_up_big_list ::
  "isograph \<Rightarrow> predicate \<Rightarrow> predicate \<Rightarrow> nat \<Rightarrow> int \<Rightarrow> int \<Rightarrow> graph list \<Rightarrow> error + graph list"
where
  "counterexamples_up_big_list lib f1 f2 n b1 b2 [] = Inr []"
| "counterexamples_up_big_list lib f1 f2 n b1 b2 (oldg # old) =
     (case extensions (passes has_fset_with_last f1 f2 b1 b2) oldg
             (powerset lib [0..<n - 1]) n of
        Inl e \<Rightarrow> Inl e
      | Inr r \<Rightarrow>
          (case counterexamples_up_big_list lib f1 f2 n b1 b2 old of
             Inl e \<Rightarrow> Inl e
           | Inr r' \<Rightarrow> Inr (r @ r')))"

definition counterexamples_up ::
  "isograph \<Rightarrow> predicate \<Rightarrow> predicate \<Rightarrow> int \<Rightarrow> int \<Rightarrow> nat \<Rightarrow> graph list \<Rightarrow> error + graph list"
where
  "counterexamples_up lib f1 f2 b1 b2 n old =
     (case counterexamples_up_big_list lib f1 f2 n b1 b2 old of
        Inl e \<Rightarrow> Inl e
      | Inr cs \<Rightarrow> Inr (unique_iso lib cs))"

text \<open>
  The loop \<^verbatim>\<open>for n in itertools.count(1)\<close> of \<open>extremals\<close>. It has no bound: \<open>None\<close> is
  a run that never returns. The printing under \<open>printflag\<close> does not touch the result
  and is left out.
\<close>

partial_function (option) extremals_loop ::
  "isograph \<Rightarrow> predicate \<Rightarrow> predicate \<Rightarrow> int \<Rightarrow> int \<Rightarrow> nat \<Rightarrow> graph list \<Rightarrow>
   (error + nat \<times> graph list) option" where
  "extremals_loop lib f1 f2 b1 b2 n oldgs =
     (case counterexamples_up lib f1 f2 b1 b2 n oldgs of
        Inl e \<Rightarrow> Some (Inl e)
      | Inr gs \<Rightarrow>
          if length gs = 0 then Some (Inr (n, oldgs))
          else extremals_loop lib f1 f2 b1 b2 (n + 1) gs)"

declare extremals_loop.simps [code]

definition extremals ::
  "isograph \<Rightarrow> predicate \<Rightarrow> predicate \<Rightarrow> int \<Rightarrow> int \<Rightarrow> (error + nat \<times> graph list) option"
where
  "extremals lib f1 f2 b1 b2 =
     (case counterexamples_zero lib f1 f2 b1 b2 of
        Inl e \<Rightarrow> Some (Inl e)
      | Inr gs \<Rightarrow>
          if length gs = 0 then Some (Inr (0, []))
          else extremals_loop lib f1 f2 b1 b2 1 gs)"

section \<open>The entry points of dividedramsey.py and sparseramsey.py\<close>

text \<open>\<open>find_extremals\<close> of dividedramsey.py: three assertions, then the two predicates
  are made and the engine runs.\<close>

definition divided_find_extremals ::
  "isograph \<Rightarrow> int \<Rightarrow> int \<Rightarrow> int \<Rightarrow> (error + nat \<times> graph list) option" where
  "divided_find_extremals lib k a b =
     (if \<not> k \<ge> 1 then Some (Inl AssertionError)
      else if \<not> a \<ge> 0 then Some (Inl AssertionError)
      else if \<not> b \<ge> 0 then Some (Inl AssertionError)
      else case make_k_divided_func k of
             Inl e \<Rightarrow> Some (Inl e)
           | Inr f1 \<Rightarrow>
               (case make_k_divided_compl_func k of
                  Inl e \<Rightarrow> Some (Inl e)
                | Inr f2 \<Rightarrow> extremals lib f1 f2 a b))"

text \<open>\<open>find_extremals\<close> of sparseramsey.py.\<close>

definition sparse_find_extremals ::
  "isograph \<Rightarrow> int \<Rightarrow> int \<Rightarrow> int \<Rightarrow> (error + nat \<times> graph list) option" where
  "sparse_find_extremals lib k a b =
     (if \<not> k \<ge> 0 then Some (Inl AssertionError)
      else if \<not> a \<ge> 0 then Some (Inl AssertionError)
      else if \<not> b \<ge> 0 then Some (Inl AssertionError)
      else extremals lib (make_k_sparse_func k) (make_k_sparse_compl_func k) a b)"

text \<open>A predicate that never fails an assertion.\<close>

definition never_asserts :: "predicate \<Rightarrow> bool" where
  "never_asserts f \<longleftrightarrow> (\<forall>g s. f g s \<noteq> Inl AssertionError)"

section \<open>Counterexample graphs and isomorphism\<close>

text \<open>The graph \<open>g\<close> contains an f-set of order \<open>b\<close>.\<close>

definition contains_fset :: "predicate \<Rightarrow> int \<Rightarrow> graph \<Rightarrow> bool" where
  "contains_fset f b g \<longleftrightarrow>
     (\<exists>s. vertex_subset g s \<and> int (length s) = b \<and> f g s = Inr True)"

text \<open>The docstring of genramsey.py: a counterexample graph is a graph that contains no
  f1-set of order \<open>b1\<close> and no f2-set of order \<open>b2\<close>.\<close>

definition counterexample :: "predicate \<Rightarrow> predicate \<Rightarrow> int \<Rightarrow> int \<Rightarrow> graph \<Rightarrow> bool" where
  "counterexample f1 f2 b1 b2 g \<longleftrightarrow>
     wf_graph g \<and> \<not> contains_fset f1 b1 g \<and> \<not> contains_fset f2 b2 g"

text \<open>The counterexample graphs of order \<open>m\<close>.\<close>

definition counterexamples_of_order ::
  "predicate \<Rightarrow> predicate \<Rightarrow> int \<Rightarrow> int \<Rightarrow> nat \<Rightarrow> graph set" where
  "counterexamples_of_order f1 f2 b1 b2 m =
     {g. length g = m \<and> counterexample f1 f2 b1 b2 g}"

text \<open>Two graphs are isomorphic when they have the same order and a relabelling of the
  vertices carries the adjacency of one to the other.\<close>

definition isomorphic :: "graph \<Rightarrow> graph \<Rightarrow> bool" where
  "isomorphic g h \<longleftrightarrow> length g = length h \<and> (\<exists>\<phi>. induced_embedding \<phi> g h)"

text \<open>The list \<open>rs\<close> holds exactly one representative of each isomorphism class of the
  graphs in \<open>A\<close>.\<close>

definition representatives :: "graph list \<Rightarrow> graph set \<Rightarrow> bool" where
  "representatives rs A \<longleftrightarrow>
     set rs \<subseteq> A \<and> (\<forall>g \<in> A. \<exists>r \<in> set rs. isomorphic g r) \<and>
     distinct rs \<and> (\<forall>r \<in> set rs. \<forall>r' \<in> set rs. isomorphic r r' \<longrightarrow> r = r')"

text \<open>
  The contracts of the functions of \<open>isograph\<close>: \<open>graphs 0\<close> yields the one graph of order
  0; \<open>powerset\<close> of the range \<open>0 .. m-1\<close> yields its subsets as ascending lists;
  \<open>unique_iso\<close> keeps one graph of each isomorphism class of its input.
\<close>

definition isograph_contract :: "isograph \<Rightarrow> bool" where
  "isograph_contract lib \<longleftrightarrow>
     graphs lib 0 = [[]] \<and>
     (\<forall>m. set (powerset lib [0..<m]) = {vs. sorted_wrt (<) vs \<and> (\<forall>v \<in> set vs. v < m)}) \<and>
     (\<forall>gs. (\<forall>g \<in> set gs. wf_graph g) \<longrightarrow>
        representatives (unique_iso lib gs) (set gs))"

text \<open>The part of the contracts that keeps the order of the graphs: \<open>graphs 0\<close> yields
  graphs of order 0, and \<open>unique_iso\<close>, given graphs of one order, yields graphs of that
  order.\<close>

definition isograph_keeps_order :: "isograph \<Rightarrow> bool" where
  "isograph_keeps_order lib \<longleftrightarrow>
     (\<forall>g \<in> set (graphs lib 0). length g = 0) \<and>
     (\<forall>gs m. (\<forall>g \<in> set gs. length g = m) \<longrightarrow>
        (\<forall>g \<in> set (unique_iso lib gs). length g = m))"

text \<open>\<open>f\<close> is a predicate: on a graph and a vertex subset of it, it returns a boolean.\<close>

definition is_predicate :: "predicate \<Rightarrow> bool" where
  "is_predicate f \<longleftrightarrow> (\<forall>g. wf_graph g \<longrightarrow> returns_bool f g)"

section \<open>A model of the module isograph\<close>

text \<open>
  Modelled from the spec: the module \<open>isograph\<close> (its functions \<open>graphs\<close>, \<open>powerset\<close>,
  \<open>isomorphic\<close> and \<open>unique_iso\<close>) is not among the sources. The definitions below follow
  the collaborator contracts of the specification: all graphs on \<open>n\<close> labelled vertices;
  the subsets of an ordered index range as ascending lists, the empty and the full one
  included; structural equivalence under vertex relabelling; one representative per
  isomorphism class, the first encountered retained.
\<close>

text \<open>The graph \<open>g\<close> of order \<open>m\<close> with a new vertex \<open>m\<close> joined to the vertices \<open>vs\<close>.\<close>

definition join_vertex :: "graph \<Rightarrow> nat list \<Rightarrow> graph" where
  "join_vertex g vs =
     map (\<lambda>v. if v \<in> set vs then g ! v @ [length g] else g ! v) [0..<length g] @ [vs]"

fun model_graphs :: "nat \<Rightarrow> graph list" where
  "model_graphs 0 = [[]]"
| "model_graphs (Suc n) =
     concat (map (\<lambda>g. map (join_vertex g) (subseqs [0..<n])) (model_graphs n))"

text \<open>The subsets by ascending size, from the empty one to the full one, those of one
  size in lexicographic order.\<close>

definition model_powerset :: "nat list \<Rightarrow> nat list list" where
  "model_powerset xs = concat (map (combinations xs) [0..<length xs + 1])"

text \<open>The relabelling \<open>p\<close>, a list of the images of \<open>0 .. n-1\<close>, carries \<open>g\<close> to \<open>h\<close>.\<close>

definition relabels :: "nat list \<Rightarrow> graph \<Rightarrow> graph \<Rightarrow> bool" where
  "relabels p g h \<longleftrightarrow>
     (\<forall>u \<in> {0..<length g}. \<forall>v \<in> {0..<length g}.
        (v \<in> set (g ! u)) = (p ! v \<in> set (h ! (p ! u))))"

definition model_isomorphic :: "graph \<Rightarrow> graph \<Rightarrow> bool" where
  "model_isomorphic g h \<longleftrightarrow>
     length g = length h \<and>
     list_ex (\<lambda>p. relabels p g h)
       (filter distinct (List.n_lists (length g) [0..<length g]))"

function model_unique_iso :: "graph list \<Rightarrow> graph list" where
  "model_unique_iso [] = []"
| "model_unique_iso (g # gs) =
     g # model_unique_iso (filter (\<lambda>h. \<not> model_isomorphic g h) gs)"
  by pat_completeness auto
termination
  by (relation "measure length") (auto simp: less_Suc_eq_le)

definition model_isograph :: isograph where
  "model_isograph =
     \<lparr>graphs = model_graphs, powerset = model_powerset, unique_iso = model_unique_iso\<rparr>"

section \<open>Candidate generation on a store\<close>

text \<open>
  Python lists are objects that several graphs can share: \<^verbatim>\<open>oldg + [list(vset)]\<close> is
  a new outer list whose first items are the very adjacency-list objects of \<open>oldg\<close>. The
  store keeps the adjacency-list objects (lists of vertices) and the graph objects
  (lists of references to adjacency-list objects); a reference is the index of the
  object in the store, and a new object is appended.
\<close>

record store =
  adj :: "nat list list"
  grs :: "nat list list"

text \<open>The graph that the graph object \<open>g\<close> denotes in the store \<open>h\<close>.\<close>

definition graph_at :: "store \<Rightarrow> nat \<Rightarrow> graph" where
  "graph_at h g = map (\<lambda>r. adj h ! r) (grs h ! g)"

text \<open>Every reference held by a graph object of the store is to an object of the store.\<close>

definition store_ok :: "store \<Rightarrow> bool" where
  "store_ok h \<longleftrightarrow> (\<forall>g < length (grs h). \<forall>r \<in> set (grs h ! g). r < length (adj h))"

text \<open>
  The loop \<^verbatim>\<open>for v in vset: g[v] = g[v] + [n-1]\<close> on the graph object \<open>g\<close>, with \<open>m\<close> for
  \<open>n-1\<close>: the one-item list \<open>[n-1]\<close> and the concatenation are new objects, and item \<open>v\<close>
  of \<open>g\<close> is set to refer to the concatenation.
\<close>

fun store_add_edges :: "store \<Rightarrow> nat \<Rightarrow> nat list \<Rightarrow> nat \<Rightarrow> error + store" where
  "store_add_edges h g [] m = Inr h"
| "store_add_edges h g (v # vs) m =
     (if v < length (grs h ! g) then
        store_add_edges
          \<lparr>adj = adj h @ [[m], adj h ! (grs h ! g ! v) @ [m]],
           grs = (grs h)[g := (grs h ! g)[v := length (adj h) + 1]]\<rparr> g vs m
      else Inl IndexError)"

text \<open>
  The candidate for the graph object \<open>oldg\<close>: \<open>list(vset)\<close>, the one-item list holding it
  and the concatenation \<^verbatim>\<open>oldg + [list(vset)]\<close> are new objects; the result is the
  store and the reference to the candidate.
\<close>

definition store_candidate :: "store \<Rightarrow> nat \<Rightarrow> nat list \<Rightarrow> nat \<Rightarrow> error + store \<times> nat" where
  "store_candidate h oldg vset n =
     (case store_add_edges
             \<lparr>adj = adj h @ [vset],
              grs = grs h @ [[length (adj h)], grs h ! oldg @ [length (adj h)]]\<rparr>
             (length (grs h) + 1) vset (n - 1) of
        Inl e \<Rightarrow> Inl e
      | Inr h' \<Rightarrow> Inr (h', length (grs h) + 1))"

text \<open>The loops of \<open>counterexamples_up_big_list\<close> on the store; the test reads the
  candidate and changes nothing. The result lists the references yielded.\<close>

fun store_extensions ::
  "(graph \<Rightarrow> error + bool) \<Rightarrow> store \<Rightarrow> nat \<Rightarrow> nat list list \<Rightarrow> nat \<Rightarrow>
   error + store \<times> nat list" where
  "store_extensions t h oldg [] n = Inr (h, [])"
| "store_extensions t h oldg (vset # vsets) n =
     (case store_candidate h oldg vset n of
        Inl e \<Rightarrow> Inl e
      | Inr (h1, g) \<Rightarrow>
          (case t (graph_at h1 g) of
             Inl e \<Rightarrow> Inl e
           | Inr keep \<Rightarrow>
               (case store_extensions t h1 oldg vsets n of
                  Inl e \<Rightarrow> Inl e
                | Inr (h2, r) \<Rightarrow> Inr (h2, if keep then g # r else r))))"

fun store_big_list ::
  "isograph \<Rightarrow> predicate \<Rightarrow> predicate \<Rightarrow> nat \<Rightarrow> int \<Rightarrow> int \<Rightarrow> store \<Rightarrow> nat list \<Rightarrow>
   error + store \<times> nat list" where
  "store_big_list lib f1 f2 n b1 b2 h [] = Inr (h, [])"
| "store_big_list lib f1 f2 n b1 b2 h (oldg # old) =
     (case store_extensions (passes has_fset_with_last f1 f2 b1 b2) h oldg
             (powerset lib [0..<n - 1]) n of
        Inl e \<Rightarrow> Inl e
      | Inr (h1, r) \<Rightarrow>
          (case store_big_list lib f1 f2 n b1 b2 h1 old of
             Inl e \<Rightarrow> Inl e
           | Inr (h2, r') \<Rightarrow> Inr (h2, r @ r')))"

text \<open>\<open>_counterexamples_up\<close> on the store: \<open>unique_iso\<close> reads the graphs yielded.\<close>

definition store_counterexamples_up ::
  "isograph \<Rightarrow> predicate \<Rightarrow> predicate \<Rightarrow> int \<Rightarrow> int \<Rightarrow> nat \<Rightarrow> store \<Rightarrow> nat list \<Rightarrow>
   error + store \<times> graph list" where
  "store_counterexamples_up lib f1 f2 b1 b2 n h old =
     (case store_big_list lib f1 f2 n b1 b2 h old of
        Inl e \<Rightarrow> Inl e
      | Inr (h', ys) \<Rightarrow> Inr (h', unique_iso lib (map (graph_at h') ys)))"

text \<open>
  The variant that the comment in the source rules out, \<^verbatim>\<open>g[v].append(n-1)\<close>: it
  changes the adjacency-list object in place.
\<close>

fun store_append_edges :: "store \<Rightarrow> nat \<Rightarrow> nat list \<Rightarrow> nat \<Rightarrow> error + store" where
  "store_append_edges h g [] m = Inr h"
| "store_append_edges h g (v # vs) m =
     (if v < length (grs h ! g) then
        store_append_edges
          (h\<lparr>adj := (adj h)[grs h ! g ! v := adj h ! (grs h ! g ! v) @ [m]]\<rparr>) g vs m
      else Inl IndexError)"

text \<open>The store \<open>h'\<close> keeps every object of \<open>h\<close> as it is.\<close>

definition extends_store :: "store \<Rightarrow> store \<Rightarrow> bool" where
  "extends_store h h' \<longleftrightarrow>
     length (adj h) \<le> length (adj h') \<and> length (grs h) \<le> length (grs h') \<and>
     (\<forall>a < length (adj h). adj h' ! a = adj h ! a) \<and>
     (\<forall>g < length (grs h). grs h' ! g = grs h ! g)"

section \<open>Properties of the enumeration\<close>

lemma combinations_set:
  "sorted_wrt (<) (xs :: nat list) \<Longrightarrow>
   set (combinations xs r) =
     {ys. sorted_wrt (<) ys \<and> set ys \<subseteq> set xs \<and> length ys = r}"
proof (induction xs r rule: combinations.induct)
  case (1 xs)
  then show ?case by auto
next
  case (2 r)
  then show ?case by auto
next
  case (3 x xs r)
  from "3.prems" have sx: "sorted_wrt (<) xs" and gt: "\<forall>y \<in> set xs. x < y"
    by auto
  have A: "set (combinations xs r) =
      {ys. sorted_wrt (<) ys \<and> set ys \<subseteq> set xs \<and> length ys = r}"
    using "3.IH"(1) sx by simp
  have B: "set (combinations xs (Suc r)) =
      {ys. sorted_wrt (<) ys \<and> set ys \<subseteq> set xs \<and> length ys = Suc r}"
    using "3.IH"(2) sx by simp
  show ?case
  proof (rule set_eqI)
    fix ys
    show "ys \<in> set (combinations (x # xs) (Suc r)) \<longleftrightarrow>
          ys \<in> {ys. sorted_wrt (<) ys \<and> set ys \<subseteq> set (x # xs) \<and> length ys = Suc r}"
    proof
      assume "ys \<in> set (combinations (x # xs) (Suc r))"
      then consider zs where "ys = x # zs" "zs \<in> set (combinations xs r)"
        | "ys \<in> set (combinations xs (Suc r))"
        by auto
      then show "ys \<in> {ys. sorted_wrt (<) ys \<and> set ys \<subseteq> set (x # xs) \<and> length ys = Suc r}"
      proof cases
        case 1
        then show ?thesis using A gt by auto
      next
        case 2
        then show ?thesis using B by auto
      qed
    next
      assume "ys \<in> {ys. sorted_wrt (<) ys \<and> set ys \<subseteq> set (x # xs) \<and> length ys = Suc r}"
      then have s: "sorted_wrt (<) ys" and sub: "set ys \<subseteq> insert x (set xs)"
        and len: "length ys = Suc r" by auto
      from len obtain y zs where ys: "ys = y # zs" by (cases ys) auto
      show "ys \<in> set (combinations (x # xs) (Suc r))"
      proof (cases "y = x")
        case True
        have "z \<in> set xs" if "z \<in> set zs" for z
        proof -
          have "x < z" using s ys True that by auto
          moreover have "z \<in> insert x (set xs)" using sub ys that by auto
          ultimately show ?thesis by auto
        qed
        then have "set zs \<subseteq> set xs" by blast
        then have "zs \<in> set (combinations xs r)" using A s ys len by auto
        then show ?thesis using ys True by auto
      next
        case False
        then have "y \<in> set xs" using sub ys by auto
        then have "x < y" using gt by auto
        have "z \<in> set xs" if "z \<in> set ys" for z
        proof -
          have "x < z" using s ys that \<open>x < y\<close> by auto
          moreover have "z \<in> insert x (set xs)" using sub that by auto
          ultimately show ?thesis by auto
        qed
        then have "set ys \<subseteq> set xs" by blast
        then have "ys \<in> set (combinations xs (Suc r))" using B s len by auto
        then show ?thesis by auto
      qed
    qed
  qed
qed

lemma combinations_upt:
  "set (combinations [0..<n] r) =
     {s. sorted_wrt (<) s \<and> (\<forall>v \<in> set s. v < n) \<and> length s = r}"
proof -
  have "sorted_wrt (<) [0..<n]" by (simp add: sorted_wrt_upt)
  then show ?thesis by (auto simp: combinations_set)
qed

lemma combinations_head:
  "ys \<in> set (combinations xs (Suc r)) \<Longrightarrow> ys \<noteq> [] \<and> hd ys \<in> set xs"
  by (induction xs "Suc r" rule: combinations.induct) auto

lemma combinations_lex:
  "sorted_wrt (<) (xs :: nat list) \<Longrightarrow> sorted_wrt lex_less (combinations xs r)"
proof (induction xs r rule: combinations.induct)
  case (1 xs)
  then show ?case by simp
next
  case (2 r)
  then show ?case by simp
next
  case (3 x xs r)
  from "3.prems" have sx: "sorted_wrt (<) xs" and gt: "\<forall>y \<in> set xs. x < y"
    by auto
  have L: "sorted_wrt lex_less (map ((#) x) (combinations xs r))"
    using "3.IH"(1) sx by (simp add: sorted_wrt_map lex_less_def)
  have R: "sorted_wrt lex_less (combinations xs (Suc r))"
    using "3.IH"(2) sx by simp
  have X: "lex_less (x # zs) ys"
    if "ys \<in> set (combinations xs (Suc r))" for zs ys
  proof -
    from combinations_head [OF that] obtain y ws where "ys = y # ws" "y \<in> set xs"
      by (cases ys) auto
    then show ?thesis using gt by (simp add: lex_less_def)
  qed
  show ?case using L R X by (auto simp: sorted_wrt_append)
qed

section \<open>Properties of the search loop\<close>

lemma fset_search_total:
  "\<forall>s \<in> set ss. \<exists>t. p s = Inr t \<Longrightarrow>
   fset_search p ss = Inr (\<exists>s \<in> set ss. p s = Inr True)"
  by (induction ss) (auto split: sum.splits)

lemma fset_search_first:
  "\<forall>x \<in> set xs. p x = Inr False \<Longrightarrow> p s = Inr True \<Longrightarrow>
   fset_search p (xs @ s # ys) = Inr True"
  by (induction xs) auto

lemma combinations_vertex_subset:
  "set (combinations [0..<length g] r) = {s. vertex_subset g s \<and> length s = r}"
  by (auto simp: combinations_upt vertex_subset_def)

lemma has_fset_total:
  assumes "returns_bool f g" "0 \<le> b" "b \<le> int (length g)"
  shows "has_fset f b g =
    Inr (\<exists>s. vertex_subset g s \<and> int (length s) = b \<and> f g s = Inr True)"
proof -
  let ?cs = "combinations [0..<length g] (nat b)"
  have mem: "s \<in> set ?cs \<longleftrightarrow> vertex_subset g s \<and> int (length s) = b" for s
    using assms(2) by (auto simp: combinations_vertex_subset)
  have "\<forall>s \<in> set ?cs. \<exists>t. f g s = Inr t"
    using assms(1) mem by (auto simp: returns_bool_def)
  then have "fset_search (f g) ?cs = Inr (\<exists>s \<in> set ?cs. f g s = Inr True)"
    by (rule fset_search_total)
  also have "(\<exists>s \<in> set ?cs. f g s = Inr True) \<longleftrightarrow>
      (\<exists>s. vertex_subset g s \<and> int (length s) = b \<and> f g s = Inr True)"
    using mem by blast
  finally show ?thesis using assms(2,3) by (simp add: has_fset_def)
qed

section \<open>Properties of the predicates of genramsey.py\<close>

lemma independent_loop_total:
  "\<forall>v \<in> set vs. v < length g \<Longrightarrow>
   independent_loop g s vs =
     Inr (\<forall>v \<in> set vs. \<forall>x \<in> set (g ! v). x \<notin> set s)"
  by (induction vs) (auto simp: list_ex_iff)

lemma is_independent_total:
  "vertex_subset g s \<Longrightarrow>
   is_independent g s = Inr (\<forall>v \<in> set s. \<forall>x \<in> set (g ! v). x \<notin> set s)"
  by (simp add: is_independent_def vertex_subset_def independent_loop_total)

lemma returns_bool_is_independent: "returns_bool is_independent g"
  by (simp add: returns_bool_def is_independent_total)

lemma clique_inner_total:
  "v < length g \<Longrightarrow>
   clique_inner g v xs = Inr (\<forall>x \<in> set xs. x \<noteq> v \<longrightarrow> x \<in> set (g ! v))"
  by (induction xs) auto

lemma clique_loop_total:
  "\<forall>v \<in> set vs. v < length g \<Longrightarrow>
   clique_loop g s vs =
     Inr (\<forall>v \<in> set vs. \<forall>x \<in> set s. x \<noteq> v \<longrightarrow> x \<in> set (g ! v))"
  by (induction vs) (auto simp: clique_inner_total)

lemma is_clique_total:
  "vertex_subset g s \<Longrightarrow>
   is_clique g s = Inr (\<forall>v \<in> set s. \<forall>x \<in> set s. x \<noteq> v \<longrightarrow> x \<in> set (g ! v))"
  by (simp add: is_clique_def vertex_subset_def clique_loop_total)

lemma returns_bool_is_clique: "returns_bool is_clique g"
  by (simp add: returns_bool_def is_clique_total)

section \<open>The contract of \<open>has_fset\<close>\<close>

text \<open>
  Claim C4. \<open>has_fset f b g\<close> is False when \<open>b < 0\<close> and when \<open>b\<close> exceeds the order of
  \<open>g\<close>. Otherwise it runs the predicate over the size-\<open>b\<close> vertex subsets of \<open>g\<close>, which
  are enumerated each once in lexicographic order; when the predicate returns a
  boolean on every vertex subset the result is True exactly if some size-\<open>b\<close> vertex
  subset satisfies \<open>f\<close>; and the search stops at the first satisfying subset: the
  result is True whatever the predicate would do on the subsets after it.
\<close>

theorem has_fset_contract:
  "(b < 0 \<longrightarrow> has_fset f b g = Inr False) \<and>
   (b > int (length g) \<longrightarrow> has_fset f b g = Inr False) \<and>
   (0 \<le> b \<and> b \<le> int (length g) \<longrightarrow>
      has_fset f b g = fset_search (f g) (combinations [0..<length g] (nat b)) \<and>
      sorted_wrt lex_less (combinations [0..<length g] (nat b)) \<and>
      set (combinations [0..<length g] (nat b)) =
        {s. vertex_subset g s \<and> int (length s) = b} \<and>
      (returns_bool f g \<longrightarrow>
         has_fset f b g =
           Inr (\<exists>s. vertex_subset g s \<and> int (length s) = b \<and> f g s = Inr True)) \<and>
      (\<forall>xs s ys. combinations [0..<length g] (nat b) = xs @ s # ys \<and>
         (\<forall>x \<in> set xs. f g x = Inr False) \<and> f g s = Inr True \<longrightarrow>
         has_fset f b g = Inr True))"
proof (intro conjI impI allI)
  assume "b < 0"
  then show "has_fset f b g = Inr False" by (simp add: has_fset_def)
next
  assume "b > int (length g)"
  then show "has_fset f b g = Inr False" by (simp add: has_fset_def)
next
  assume "0 \<le> b \<and> b \<le> int (length g)"
  then show "has_fset f b g = fset_search (f g) (combinations [0..<length g] (nat b))"
    by (simp add: has_fset_def)
next
  show "sorted_wrt lex_less (combinations [0..<length g] (nat b))"
    by (rule combinations_lex) (simp add: sorted_wrt_upt)
next
  assume "0 \<le> b \<and> b \<le> int (length g)"
  then show "set (combinations [0..<length g] (nat b)) =
      {s. vertex_subset g s \<and> int (length s) = b}"
    by (auto simp: combinations_vertex_subset)
next
  assume "0 \<le> b \<and> b \<le> int (length g)" "returns_bool f g"
  then show "has_fset f b g =
      Inr (\<exists>s. vertex_subset g s \<and> int (length s) = b \<and> f g s = Inr True)"
    by (simp add: has_fset_total)
next
  fix xs s ys
  assume r: "0 \<le> b \<and> b \<le> int (length g)"
    and "combinations [0..<length g] (nat b) = xs @ s # ys \<and>
         (\<forall>x \<in> set xs. f g x = Inr False) \<and> f g s = Inr True"
  then have "fset_search (f g) (combinations [0..<length g] (nat b)) = Inr True"
    by (simp add: fset_search_first)
  then show "has_fset f b g = Inr True" using r by (simp add: has_fset_def)
qed

theorem has_fset_contract_witness:
  "(0::int) \<le> 3 \<and> 3 \<le> int (length [[3], [3], [3], [0, 1, 2::nat]]) \<and>
   returns_bool is_independent [[3], [3], [3], [0, 1, 2]] \<and>
   has_fset is_independent 3 [[3], [3], [3], [0, 1, 2]] = Inr True \<and>
   (\<exists>s. vertex_subset [[3], [3], [3], [0, 1, 2]] s \<and> int (length s) = 3 \<and>
        is_independent [[3], [3], [3], [0, 1, 2]] s = Inr True) \<and>
   has_fset is_independent (- 1) [[3], [3], [3], [0, 1, 2]] = Inr False \<and>
   has_fset is_independent 5 [[3], [3], [3], [0, 1, 2]] = Inr False"
proof -
  let ?g = "[[3], [3], [3], [0, 1, 2::nat]]"
  have h: "(0::int) \<le> 3 \<and> 3 \<le> int (length ?g)" by simp
  have c: "combinations [0..<length ?g] (nat 3) =
      [] @ [0, 1, 2] # [[0, 1, 3], [0, 2, 3], [1, 2, 3]] \<and>
      (\<forall>x \<in> set []. is_independent ?g x = Inr False) \<and>
      is_independent ?g [0, 1, 2] = Inr True"
    by code_simp
  have r: "returns_bool is_independent ?g"
    by (rule returns_bool_is_independent)
  have t: "has_fset is_independent 3 ?g = Inr True"
    using has_fset_contract [of 3 is_independent ?g] h c by blast
  have "has_fset is_independent 3 ?g =
      Inr (\<exists>s. vertex_subset ?g s \<and> int (length s) = 3 \<and> is_independent ?g s = Inr True)"
    using has_fset_contract [of 3 is_independent ?g] h r by blast
  with t have e: "\<exists>s. vertex_subset ?g s \<and> int (length s) = 3 \<and>
      is_independent ?g s = Inr True"
    by simp
  have n: "has_fset is_independent (- 1) ?g = Inr False"
    using has_fset_contract [of "- 1" is_independent ?g] by simp
  have m: "has_fset is_independent 5 ?g = Inr False"
    using has_fset_contract [of 5 is_independent ?g] by simp
  show ?thesis using h r t e n m by blast
qed

section \<open>The contract of \<open>has_fset_with_last\<close>\<close>

lemma vertex_subset_last:
  assumes "vertex_subset g s" "length g - 1 \<in> set s"
  shows "\<exists>ss. s = ss @ [length g - 1] \<and> sorted_wrt (<) ss \<and>
           (\<forall>v \<in> set ss. v < length g - 1)"
proof -
  from assms(2) have "s \<noteq> []" by auto
  then obtain ss x where s: "s = ss @ [x]" by (cases s rule: rev_cases) auto
  from assms(1) s have srt: "sorted_wrt (<) ss" and below: "\<forall>y \<in> set ss. y < x"
    and xn: "x < length g"
    by (auto simp: vertex_subset_def sorted_wrt_append)
  have "x = length g - 1"
  proof (rule ccontr)
    assume "x \<noteq> length g - 1"
    then have "length g - 1 \<in> set ss" using assms(2) s by auto
    then have "length g - 1 < x" using below by auto
    then show False using xn by arith
  qed
  then show ?thesis using s srt below by auto
qed

lemma with_last_image:
  assumes "1 \<le> b" "b \<le> int (length g)"
  shows "(\<lambda>ss. ss @ [length g - 1]) ` set (combinations [0..<length g - 1] (nat (b - 1))) =
     {s. vertex_subset g s \<and> int (length s) = b \<and> length g - 1 \<in> set s}"
    (is "?L = ?R")
proof (rule set_eqI)
  fix s
  show "s \<in> ?L \<longleftrightarrow> s \<in> ?R"
  proof
    assume "s \<in> ?L"
    then obtain ss where s: "s = ss @ [length g - 1]"
      and ss: "sorted_wrt (<) ss" "\<forall>v \<in> set ss. v < length g - 1" "length ss = nat (b - 1)"
      by (auto simp: combinations_upt)
    have "sorted_wrt (<) s" using s ss by (auto simp: sorted_wrt_append)
    moreover have "\<forall>v \<in> set s. v < length g" using s ss assms by auto
    moreover have "int (length s) = b" using s ss assms by auto
    ultimately show "s \<in> ?R" using s by (auto simp: vertex_subset_def)
  next
    assume "s \<in> ?R"
    then have vs: "vertex_subset g s" and len: "int (length s) = b"
      and mem: "length g - 1 \<in> set s" by auto
    from vertex_subset_last [OF vs mem] obtain ss where s: "s = ss @ [length g - 1]"
      and ss: "sorted_wrt (<) ss" "\<forall>v \<in> set ss. v < length g - 1" by blast
    have "length ss = nat (b - 1)" using s len by auto
    then have "ss \<in> set (combinations [0..<length g - 1] (nat (b - 1)))"
      using ss by (auto simp: combinations_upt)
    then show "s \<in> ?L" using s by blast
  qed
qed

lemma has_fset_with_last_total:
  assumes "returns_bool f g" "1 \<le> b" "b \<le> int (length g)"
  shows "has_fset_with_last f b g =
    Inr (\<exists>s. vertex_subset g s \<and> int (length s) = b \<and> length g - 1 \<in> set s \<and>
             f g s = Inr True)"
proof -
  let ?cs = "combinations [0..<length g - 1] (nat (b - 1))"
  let ?p = "\<lambda>ss. f g (ss @ [length g - 1])"
  note img = with_last_image [OF assms(2,3)]
  have "\<forall>ss \<in> set ?cs. \<exists>t. ?p ss = Inr t"
  proof
    fix ss assume "ss \<in> set ?cs"
    then have "ss @ [length g - 1] \<in> (\<lambda>ss. ss @ [length g - 1]) ` set ?cs" by blast
    then have "vertex_subset g (ss @ [length g - 1])" unfolding img by simp
    then show "\<exists>t. ?p ss = Inr t" using assms(1) by (simp add: returns_bool_def)
  qed
  then have "fset_search ?p ?cs = Inr (\<exists>ss \<in> set ?cs. ?p ss = Inr True)"
    by (rule fset_search_total)
  also have "(\<exists>ss \<in> set ?cs. ?p ss = Inr True) \<longleftrightarrow>
      (\<exists>s \<in> (\<lambda>ss. ss @ [length g - 1]) ` set ?cs. f g s = Inr True)"
    by blast
  also have "\<dots> \<longleftrightarrow> (\<exists>s. vertex_subset g s \<and> int (length s) = b \<and>
      length g - 1 \<in> set s \<and> f g s = Inr True)"
    unfolding img by blast
  finally show ?thesis using assms(2,3) by (simp add: has_fset_with_last_def Let_def)
qed

text \<open>
  Claim C5. \<open>has_fset_with_last f b g\<close> is False when \<open>b < 1\<close> and when \<open>b\<close> exceeds the
  order \<open>n\<close> of \<open>g\<close>. Otherwise it enumerates the size-\<open>(b-1)\<close> subsets of the first
  \<open>n-1\<close> vertices and tests \<open>f\<close> on each with \<open>n-1\<close> appended; the sets tested are
  exactly the size-\<open>b\<close> vertex subsets that contain \<open>n-1\<close>, and when the predicate
  returns a boolean on every vertex subset the result is True exactly if one of them
  satisfies \<open>f\<close>.
\<close>

theorem has_fset_with_last_contract:
  "(b < 1 \<longrightarrow> has_fset_with_last f b g = Inr False) \<and>
   (b > int (length g) \<longrightarrow> has_fset_with_last f b g = Inr False) \<and>
   (1 \<le> b \<and> b \<le> int (length g) \<longrightarrow>
      has_fset_with_last f b g =
        fset_search (\<lambda>ss. f g (ss @ [length g - 1]))
          (combinations [0..<length g - 1] (nat (b - 1))) \<and>
      set (combinations [0..<length g - 1] (nat (b - 1))) =
        {ss. sorted_wrt (<) ss \<and> (\<forall>v \<in> set ss. v < length g - 1) \<and>
             int (length ss) = b - 1} \<and>
      (\<lambda>ss. ss @ [length g - 1]) ` set (combinations [0..<length g - 1] (nat (b - 1))) =
        {s. vertex_subset g s \<and> int (length s) = b \<and> length g - 1 \<in> set s} \<and>
      (returns_bool f g \<longrightarrow>
         has_fset_with_last f b g =
           Inr (\<exists>s. vertex_subset g s \<and> int (length s) = b \<and> length g - 1 \<in> set s \<and>
                    f g s = Inr True)))"
proof (intro conjI impI)
  assume "b < 1"
  then show "has_fset_with_last f b g = Inr False" by (simp add: has_fset_with_last_def)
next
  assume "b > int (length g)"
  then show "has_fset_with_last f b g = Inr False" by (simp add: has_fset_with_last_def)
next
  assume "1 \<le> b \<and> b \<le> int (length g)"
  then show "has_fset_with_last f b g =
      fset_search (\<lambda>ss. f g (ss @ [length g - 1]))
        (combinations [0..<length g - 1] (nat (b - 1)))"
    by (simp add: has_fset_with_last_def Let_def)
next
  assume "1 \<le> b \<and> b \<le> int (length g)"
  then show "set (combinations [0..<length g - 1] (nat (b - 1))) =
      {ss. sorted_wrt (<) ss \<and> (\<forall>v \<in> set ss. v < length g - 1) \<and>
           int (length ss) = b - 1}"
    by (auto simp: combinations_upt)
next
  assume "1 \<le> b \<and> b \<le> int (length g)"
  then show "(\<lambda>ss. ss @ [length g - 1]) `
        set (combinations [0..<length g - 1] (nat (b - 1))) =
      {s. vertex_subset g s \<and> int (length s) = b \<and> length g - 1 \<in> set s}"
    using with_last_image [of b g] by blast
next
  assume "1 \<le> b \<and> b \<le> int (length g)" "returns_bool f g"
  then show "has_fset_with_last f b g =
      Inr (\<exists>s. vertex_subset g s \<and> int (length s) = b \<and> length g - 1 \<in> set s \<and>
               f g s = Inr True)"
    using has_fset_with_last_total [of f g b] by blast
qed

theorem has_fset_with_last_contract_witness:
  "(1::int) \<le> 2 \<and> 2 \<le> int (length [[3], [3], [3], [0, 1, 2::nat]]) \<and>
   returns_bool is_clique [[3], [3], [3], [0, 1, 2]] \<and>
   has_fset_with_last is_clique 2 [[3], [3], [3], [0, 1, 2]] = Inr True \<and>
   (\<exists>s. vertex_subset [[3], [3], [3], [0, 1, 2]] s \<and> int (length s) = 2 \<and>
        length [[3], [3], [3], [0, 1, 2::nat]] - 1 \<in> set s \<and>
        is_clique [[3], [3], [3], [0, 1, 2]] s = Inr True) \<and>
   has_fset_with_last is_clique 0 [[3], [3], [3], [0, 1, 2]] = Inr False \<and>
   has_fset_with_last is_clique 5 [[3], [3], [3], [0, 1, 2]] = Inr False"
proof -
  let ?g = "[[3], [3], [3], [0, 1, 2::nat]]"
  have h: "(1::int) \<le> 2 \<and> 2 \<le> int (length ?g)" by simp
  have r: "returns_bool is_clique ?g"
    by (rule returns_bool_is_clique)
  have c: "fset_search (\<lambda>ss. is_clique ?g (ss @ [length ?g - 1]))
      (combinations [0..<length ?g - 1] (nat (2 - 1))) = Inr True"
    by code_simp
  have t: "has_fset_with_last is_clique 2 ?g = Inr True"
    using has_fset_with_last_contract [of 2 is_clique ?g] h c by simp
  have "has_fset_with_last is_clique 2 ?g =
      Inr (\<exists>s. vertex_subset ?g s \<and> int (length s) = 2 \<and> length ?g - 1 \<in> set s \<and>
               is_clique ?g s = Inr True)"
    using has_fset_with_last_contract [of 2 is_clique ?g] h r by blast
  with t have e: "\<exists>s. vertex_subset ?g s \<and> int (length s) = 2 \<and>
      length ?g - 1 \<in> set s \<and> is_clique ?g s = Inr True"
    by simp
  have n: "has_fset_with_last is_clique 0 ?g = Inr False"
    using has_fset_with_last_contract [of 0 is_clique ?g] by simp
  have m: "has_fset_with_last is_clique 5 ?g = Inr False"
    using has_fset_with_last_contract [of 5 is_clique ?g] by simp
  show ?thesis using h r t e n m by blast
qed

section \<open>Checking only the sets with the last vertex\<close>

lemma fset_search_False_iff:
  "fset_search p ss = Inr False \<longleftrightarrow> (\<forall>s \<in> set ss. p s = Inr False)"
  by (induction ss) (auto split: sum.splits)

lemma fset_search_True_D:
  "fset_search p ss = Inr True \<Longrightarrow> \<exists>s \<in> set ss. p s = Inr True"
  by (induction ss) (auto split: sum.splits if_splits)

lemma strict_sorted_length_le:
  assumes "sorted_wrt (<) (s :: nat list)" "\<forall>v \<in> set s. v < m"
  shows "length s \<le> m"
proof -
  have "distinct s" using assms(1) by (simp add: strict_sorted_iff)
  then have "length s = card (set s)" by (simp add: distinct_card)
  also have "\<dots> \<le> card {0..<m}"
    using assms(2) by (intro card_mono) auto
  finally show ?thesis by simp
qed

lemma vertex_subset_length: "vertex_subset g s \<Longrightarrow> length s \<le> length g"
  by (simp add: vertex_subset_def strict_sorted_length_le)

lemma has_fset_True_D:
  assumes "has_fset f b g = Inr True"
  shows "\<exists>s. vertex_subset g s \<and> int (length s) = b \<and> f g s = Inr True"
proof -
  from assms have r: "0 \<le> b" "b \<le> int (length g)"
    by (auto simp: has_fset_def Let_def split: if_splits)
  with assms have "fset_search (f g) (combinations [0..<length g] (nat b)) = Inr True"
    by (simp add: has_fset_def Let_def)
  from fset_search_True_D [OF this] show ?thesis
    using r by (auto simp: combinations_vertex_subset)
qed

lemma has_fset_False_D:
  assumes "has_fset f b g = Inr False" "vertex_subset g s" "int (length s) = b"
  shows "f g s = Inr False"
proof -
  have r: "0 \<le> b" "b \<le> int (length g)"
    using assms(2,3) vertex_subset_length [of g s] by auto
  with assms(1) have "fset_search (f g) (combinations [0..<length g] (nat b)) = Inr False"
    by (simp add: has_fset_def Let_def)
  moreover have "s \<in> set (combinations [0..<length g] (nat b))"
    using assms(2,3) by (auto simp: combinations_vertex_subset)
  ultimately show ?thesis by (simp add: fset_search_False_iff)
qed

lemma has_fset_with_last_True_D:
  assumes "has_fset_with_last f b g = Inr True"
  shows "\<exists>s. vertex_subset g s \<and> int (length s) = b \<and> length g - 1 \<in> set s \<and>
           f g s = Inr True"
proof -
  let ?cs = "combinations [0..<length g - 1] (nat (b - 1))"
  from assms have r: "1 \<le> b" "b \<le> int (length g)"
    by (auto simp: has_fset_with_last_def Let_def split: if_splits)
  with assms have "fset_search (\<lambda>ss. f g (ss @ [length g - 1])) ?cs = Inr True"
    by (simp add: has_fset_with_last_def Let_def)
  from fset_search_True_D [OF this] obtain ss where
    ss: "ss \<in> set ?cs" "f g (ss @ [length g - 1]) = Inr True" by blast
  from ss(1) have "ss @ [length g - 1] \<in> (\<lambda>ss. ss @ [length g - 1]) ` set ?cs" by blast
  then have "ss @ [length g - 1] \<in>
      {s. vertex_subset g s \<and> int (length s) = b \<and> length g - 1 \<in> set s}"
    unfolding with_last_image [OF r] .
  then show ?thesis using ss(2) by blast
qed

lemma length_induced_prefix: "m \<le> length g \<Longrightarrow> length (induced_prefix g m) = m"
  by (simp add: induced_prefix_def)

lemma nth_induced_prefix:
  "m \<le> length g \<Longrightarrow> v < m \<Longrightarrow> induced_prefix g m ! v = filter (\<lambda>x. x < m) (g ! v)"
  by (simp add: induced_prefix_def)

lemma wf_graphD:
  assumes "wf_graph g" "v < length g"
  shows "distinct (g ! v)" "v \<notin> set (g ! v)"
    "u \<in> set (g ! v) \<Longrightarrow> u < length g" "u \<in> set (g ! v) \<Longrightarrow> v \<in> set (g ! u)"
proof -
  have "v \<in> {0..<length g}" using assms(2) by simp
  with assms(1) have *: "distinct (g ! v) \<and> v \<notin> set (g ! v) \<and>
      (\<forall>u \<in> set (g ! v). u < length g \<and> v \<in> set (g ! u))"
    unfolding wf_graph_def by (rule bspec)
  show "distinct (g ! v)" "v \<notin> set (g ! v)" using * by blast+
  show "u \<in> set (g ! v) \<Longrightarrow> u < length g" using * by blast
  show "u \<in> set (g ! v) \<Longrightarrow> v \<in> set (g ! u)" using * by blast
qed

lemma wf_graphI:
  assumes "\<And>v. v < length g \<Longrightarrow> distinct (g ! v)"
    "\<And>v. v < length g \<Longrightarrow> v \<notin> set (g ! v)"
    "\<And>v u. v < length g \<Longrightarrow> u \<in> set (g ! v) \<Longrightarrow> u < length g"
    "\<And>v u. v < length g \<Longrightarrow> u \<in> set (g ! v) \<Longrightarrow> v \<in> set (g ! u)"
  shows "wf_graph g"
  unfolding wf_graph_def
proof (intro ballI conjI)
  fix v assume "v \<in> {0..<length g}"
  then have v: "v < length g" by simp
  show "distinct (g ! v)" "v \<notin> set (g ! v)" using assms(1,2) v by blast+
  fix u assume u: "u \<in> set (g ! v)"
  show "u < length g" using assms(3) v u by blast
  show "v \<in> set (g ! u)" using assms(4) v u by blast
qed

lemma wf_induced_prefix:
  assumes "wf_graph g" "m \<le> length g"
  shows "wf_graph (induced_prefix g m)"
proof (rule wf_graphI)
  fix v assume "v < length (induced_prefix g m)"
  then have v: "v < m" "v < length g" using assms(2) by (simp_all add: length_induced_prefix)
  have nth: "induced_prefix g m ! v = filter (\<lambda>x. x < m) (g ! v)"
    using v assms(2) by (simp add: nth_induced_prefix)
  show "distinct (induced_prefix g m ! v)"
    unfolding nth using wf_graphD(1) [OF assms(1) v(2)] by simp
  show "v \<notin> set (induced_prefix g m ! v)"
    unfolding nth using wf_graphD(2) [OF assms(1) v(2)] by simp
next
  fix v u assume "v < length (induced_prefix g m)" "u \<in> set (induced_prefix g m ! v)"
  then have v: "v < m" "v < length g" and u: "u \<in> set (g ! v)" "u < m"
    using assms(2) by (simp_all add: length_induced_prefix nth_induced_prefix)
  show "u < length (induced_prefix g m)"
    using u(2) assms(2) by (simp add: length_induced_prefix)
next
  fix v u assume "v < length (induced_prefix g m)" "u \<in> set (induced_prefix g m ! v)"
  then have v: "v < m" "v < length g" and u: "u \<in> set (g ! v)" "u < m"
    using assms(2) by (simp_all add: length_induced_prefix nth_induced_prefix)
  have "v \<in> set (g ! u)" using wf_graphD(4) [OF assms(1) v(2) u(1)] .
  then show "v \<in> set (induced_prefix g m ! u)"
    using u(2) v(1) assms(2) by (simp add: nth_induced_prefix)
qed

lemma embedding_induced_prefix:
  assumes "m \<le> length g"
  shows "induced_embedding id (induced_prefix g m) g"
  unfolding induced_embedding_def
proof (intro conjI allI impI)
  show "inj_on id {0..<length (induced_prefix g m)}" by simp
next
  fix u assume "u < length (induced_prefix g m)"
  then show "id u < length g" using assms by (simp add: length_induced_prefix)
next
  fix u v assume "u < length (induced_prefix g m)" "v < length (induced_prefix g m)"
  then have "u < m" "v < m" using assms by (simp_all add: length_induced_prefix)
  then show "v \<in> set (induced_prefix g m ! u) \<longleftrightarrow> id v \<in> set (g ! id u)"
    using assms by (simp add: nth_induced_prefix)
qed

lemma sorted_list_of_set_vertex_list:
  "sorted_wrt (<) (s :: nat list) \<Longrightarrow> sorted_list_of_set (set s) = s"
  by (simp add: strict_sorted_iff sorted_list_of_set.idem_if_sorted_distinct)

lemma hereditary_prefix:
  assumes "induced_hereditary f" "wf_graph g" "m \<le> length g"
    "sorted_wrt (<) s" "\<forall>v \<in> set s. v < m"
  shows "f (induced_prefix g m) s = Inr True \<longleftrightarrow> f g s = Inr True"
proof -
  have "vertex_subset (induced_prefix g m) s"
    using assms(3,4,5) by (simp add: vertex_subset_def length_induced_prefix)
  moreover note wf_induced_prefix [OF assms(2,3)] assms(2)
    embedding_induced_prefix [OF assms(3)]
  ultimately have "f (induced_prefix g m) s = Inr True \<longleftrightarrow>
      f g (sorted_list_of_set (id ` set s)) = Inr True"
    using assms(1) unfolding induced_hereditary_def by blast
  then show ?thesis using assms(4) by (simp add: sorted_list_of_set_vertex_list)
qed

lemma with_last_sound:
  assumes "returns_bool f g" "has_fset_with_last f b g = Inr True"
  shows "has_fset f b g = Inr True"
proof -
  from has_fset_with_last_True_D [OF assms(2)] obtain s where
    s: "vertex_subset g s" "int (length s) = b" "f g s = Inr True" by blast
  have "0 \<le> b" "b \<le> int (length g)"
    using s(1,2) vertex_subset_length [of g s] by auto
  from has_fset_total [OF assms(1) this] show ?thesis using s by auto
qed

lemma with_last_complete:
  assumes ih: "induced_hereditary f" and wf: "wf_graph g" and n: "1 \<le> length g"
    and rb: "returns_bool f g"
    and par: "has_fset f b (induced_prefix g (length g - 1)) = Inr False"
    and hf: "has_fset f b g = Inr True"
  shows "has_fset_with_last f b g = Inr True"
proof -
  let ?p = "induced_prefix g (length g - 1)"
  from has_fset_True_D [OF hf] obtain s where
    s: "vertex_subset g s" "int (length s) = b" "f g s = Inr True" by blast
  have last: "length g - 1 \<in> set s"
  proof (rule ccontr)
    assume nl: "length g - 1 \<notin> set s"
    have lt: "\<forall>v \<in> set s. v < length g - 1"
    proof
      fix v assume "v \<in> set s"
      then have "v < length g" "v \<noteq> length g - 1"
        using s(1) nl by (auto simp: vertex_subset_def)
      then show "v < length g - 1" by arith
    qed
    have srt: "sorted_wrt (<) s" using s(1) by (simp add: vertex_subset_def)
    have "f ?p s = Inr True"
      using hereditary_prefix [OF ih wf _ srt lt] s(3) by simp
    moreover have "vertex_subset ?p s"
      using srt lt by (simp add: vertex_subset_def length_induced_prefix)
    ultimately show False
      using has_fset_False_D [OF par _ s(2)] by simp
  qed
  have "1 \<le> b" using last s(2) by (cases s) auto
  moreover have "b \<le> int (length g)"
    using s(1,2) vertex_subset_length [of g s] by auto
  ultimately show ?thesis
    using has_fset_with_last_total [OF rb] s last by auto
qed

text \<open>
  Claim C2. For a predicate \<open>f\<close> (a function that returns a boolean on the vertex
  subsets of \<open>g\<close>): if \<open>has_fset_with_last f b g\<close> is True then so is \<open>has_fset f b g\<close>.
  If moreover \<open>f\<close> is induced-hereditary, \<open>g\<close> is a graph of order \<open>n \<ge> 1\<close> and the
  subgraph induced by the vertices \<open>0 .. n-2\<close> has no f-set of order \<open>b\<close>, then
  \<open>has_fset f b g\<close> is True if and only if \<open>has_fset_with_last f b g\<close> is True.
\<close>

theorem with_last_suffices:
  "(returns_bool f g \<and> has_fset_with_last f b g = Inr True \<longrightarrow>
      has_fset f b g = Inr True) \<and>
   (induced_hereditary f \<and> wf_graph g \<and> 1 \<le> length g \<and> returns_bool f g \<and>
    has_fset f b (induced_prefix g (length g - 1)) = Inr False \<longrightarrow>
      (has_fset f b g = Inr True \<longleftrightarrow> has_fset_with_last f b g = Inr True))"
  using with_last_sound [of f g b] with_last_complete [of f g b] by blast

section \<open>The predicates of genramsey.py are induced-hereditary\<close>

lemma set_image_list: "set (image_list \<phi> s) = \<phi> ` set s"
  by (simp add: image_list_def)

lemma sorted_image_list: "sorted_wrt (<) (image_list \<phi> s)"
  by (simp add: image_list_def strict_sorted_list_of_set)

lemma vertex_subset_image:
  assumes "induced_embedding \<phi> h g" "vertex_subset h s"
  shows "vertex_subset g (image_list \<phi> s)"
  using assms
  by (auto simp: vertex_subset_def induced_embedding_def set_image_list sorted_image_list)

lemma length_image_list:
  assumes "induced_embedding \<phi> h g" "vertex_subset h s"
  shows "length (image_list \<phi> s) = length s"
proof -
  have d: "distinct s" using assms(2) by (simp add: vertex_subset_def strict_sorted_iff)
  have "set s \<subseteq> {0..<length h}" using assms(2) by (auto simp: vertex_subset_def)
  then have "inj_on \<phi> (set s)"
    using assms(1) unfolding induced_embedding_def by (blast intro: inj_on_subset)
  then have "card (\<phi> ` set s) = card (set s)" by (rule card_image)
  then show ?thesis using d
    by (simp add: image_list_def length_sorted_list_of_set distinct_card)
qed

lemma induced_hereditary_is_independent: "induced_hereditary is_independent"
  unfolding induced_hereditary_def
proof (intro allI impI)
  fix h g \<phi> s
  assume a: "wf_graph h \<and> wf_graph g \<and> induced_embedding \<phi> h g \<and> vertex_subset h s"
  then have emb: "induced_embedding \<phi> h g" and vs: "vertex_subset h s" by auto
  have vs': "vertex_subset g (image_list \<phi> s)" by (rule vertex_subset_image [OF emb vs])
  have in_h: "v < length h" if "v \<in> set s" for v
    using vs that by (simp add: vertex_subset_def)
  have adj: "y \<in> set (h ! x) \<longleftrightarrow> \<phi> y \<in> set (g ! \<phi> x)" if "x \<in> set s" "y \<in> set s" for x y
    using emb in_h [OF that(1)] in_h [OF that(2)] unfolding induced_embedding_def by blast
  have "(\<forall>v \<in> set s. \<forall>x \<in> set (h ! v). x \<notin> set s) \<longleftrightarrow>
        (\<forall>v \<in> \<phi> ` set s. \<forall>x \<in> set (g ! v). x \<notin> \<phi> ` set s)"
    using adj by blast
  then have "is_independent h s = Inr True \<longleftrightarrow> is_independent g (image_list \<phi> s) = Inr True"
    by (simp add: is_independent_total [OF vs] is_independent_total [OF vs'] set_image_list)
  then show "is_independent h s = Inr True \<longleftrightarrow>
      is_independent g (sorted_list_of_set (\<phi> ` set s)) = Inr True"
    by (simp add: image_list_def)
qed

lemma induced_hereditary_is_clique: "induced_hereditary is_clique"
  unfolding induced_hereditary_def
proof (intro allI impI)
  fix h g \<phi> s
  assume a: "wf_graph h \<and> wf_graph g \<and> induced_embedding \<phi> h g \<and> vertex_subset h s"
  then have emb: "induced_embedding \<phi> h g" and vs: "vertex_subset h s" by auto
  have vs': "vertex_subset g (image_list \<phi> s)" by (rule vertex_subset_image [OF emb vs])
  have in_h: "v < length h" if "v \<in> set s" for v
    using vs that by (simp add: vertex_subset_def)
  have adj: "y \<in> set (h ! x) \<longleftrightarrow> \<phi> y \<in> set (g ! \<phi> x)" if "x \<in> set s" "y \<in> set s" for x y
    using emb in_h [OF that(1)] in_h [OF that(2)] unfolding induced_embedding_def by blast
  have inj: "\<phi> x = \<phi> y \<longleftrightarrow> x = y" if "x \<in> set s" "y \<in> set s" for x y
    using emb in_h [OF that(1)] in_h [OF that(2)]
    unfolding induced_embedding_def inj_on_def by auto
  have "(\<forall>v \<in> set s. \<forall>x \<in> set s. x \<noteq> v \<longrightarrow> x \<in> set (h ! v)) \<longleftrightarrow>
        (\<forall>v \<in> \<phi> ` set s. \<forall>x \<in> \<phi> ` set s. x \<noteq> v \<longrightarrow> x \<in> set (g ! v))"
    using adj inj by (simp add: ball_simps)
  then have "is_clique h s = Inr True \<longleftrightarrow> is_clique g (image_list \<phi> s) = Inr True"
    by (simp add: is_clique_total [OF vs] is_clique_total [OF vs'] set_image_list)
  then show "is_clique h s = Inr True \<longleftrightarrow>
      is_clique g (sorted_list_of_set (\<phi> ` set s)) = Inr True"
    by (simp add: image_list_def)
qed

theorem with_last_suffices_witness:
  "returns_bool is_independent [[], []] \<and>
   has_fset_with_last is_independent 2 [[], []] = Inr True \<and>
   has_fset is_independent 2 [[], []] = Inr True \<and>
   induced_hereditary is_independent \<and> wf_graph [[], []] \<and> 1 \<le> length [[], [] :: nat list] \<and>
   has_fset is_independent 2 (induced_prefix [[], []] (length [[], [] :: nat list] - 1)) =
     Inr False \<and>
   (has_fset is_independent 2 [[], []] = Inr True) =
   (has_fset_with_last is_independent 2 [[], []] = Inr True)"
proof -
  let ?g = "[[], []] :: graph"
  have r: "returns_bool is_independent ?g" by (rule returns_bool_is_independent)
  have l: "has_fset_with_last is_independent 2 ?g = Inr True" by code_simp
  have w: "wf_graph ?g" by code_simp
  have n: "1 \<le> length ?g" by simp
  have p: "has_fset is_independent 2 (induced_prefix ?g (length ?g - 1)) = Inr False"
    by code_simp
  note ih = induced_hereditary_is_independent
  have t: "has_fset is_independent 2 ?g = Inr True"
    using with_last_suffices [of is_independent ?g 2] r l by blast
  have e: "(has_fset is_independent 2 ?g = Inr True) =
      (has_fset_with_last is_independent 2 ?g = Inr True)"
    using with_last_suffices [of is_independent ?g 2] ih w n r p by blast
  show ?thesis using r l t ih w n p e by blast
qed

section \<open>Correctness of the k-sparse predicate\<close>

lemma sparse_count_eq:
  "d \<le> k \<Longrightarrow>
   sparse_count k s xs d = (d + int (length (filter (\<lambda>x. x \<in> set s) xs)) \<le> k)"
  by (induction xs arbitrary: d) auto

lemma length_filter_card:
  "distinct xs \<Longrightarrow> length (filter (\<lambda>x. x \<in> A) xs) = card (set xs \<inter> A)"
proof -
  assume d: "distinct xs"
  then have "distinct (filter (\<lambda>x. x \<in> A) xs)" by simp
  then have "length (filter (\<lambda>x. x \<in> A) xs) = card (set (filter (\<lambda>x. x \<in> A) xs))"
    by (rule distinct_card [symmetric])
  also have "set (filter (\<lambda>x. x \<in> A) xs) = set xs \<inter> A" by auto
  finally show ?thesis .
qed

lemma sparse_count_card:
  "0 \<le> k \<Longrightarrow> distinct xs \<Longrightarrow>
   sparse_count k s xs 0 = (int (card (set xs \<inter> set s)) \<le> k)"
  by (simp add: sparse_count_eq length_filter_card)

lemma sparse_loop_total:
  assumes "0 \<le> k" "\<forall>v \<in> set vs. v < length g \<and> distinct (g ! v)"
  shows "sparse_loop k g s vs =
    Inr (\<forall>v \<in> set vs. int (card (set (g ! v) \<inter> set s)) \<le> k)"
  using assms(2)
  by (induction vs) (auto simp: sparse_count_card [OF assms(1)])

lemma sparse_loop_exit:
  assumes "0 \<le> k"
    "\<forall>u \<in> set vs. u < length g \<and> distinct (g ! u) \<and> int (card (set (g ! u) \<inter> set s)) \<le> k"
    "v < length g" "distinct (g ! v)" "int (card (set (g ! v) \<inter> set s)) > k"
  shows "sparse_loop k g s (vs @ v # ws) = Inr False"
  using assms(2)
proof (induction vs)
  case Nil
  then show ?case using assms(3,4,5) by (simp add: sparse_count_card [OF assms(1)])
next
  case (Cons u vs)
  then show ?case by (simp add: sparse_count_card [OF assms(1)])
qed

lemma is_k_sparse_total:
  assumes "0 \<le> k" "vertex_subset g s" "\<forall>v \<in> set s. distinct (g ! v)"
  shows "is_k_sparse k g s = Inr (\<forall>v \<in> set s. int (card (set (g ! v) \<inter> set s)) \<le> k)"
  unfolding is_k_sparse_def
  using assms(2,3) by (intro sparse_loop_total [OF assms(1)]) (simp add: vertex_subset_def)

text \<open>
  Claim C6. For \<open>k \<ge> 0\<close>, a graph \<open>g\<close> and a vertex subset \<open>s\<close> of \<open>g\<close>, the predicate
  returned by \<open>make_k_sparse_func k\<close> is True exactly if every vertex of \<open>s\<close> has at most
  \<open>k\<close> neighbours inside \<open>s\<close>. It returns False at the first vertex whose count exceeds \<open>k\<close>,
  whatever follows that vertex in the list.
\<close>

theorem make_k_sparse_func_correct:
  "(0 \<le> k \<and> wf_graph g \<and> vertex_subset g s \<longrightarrow>
      make_k_sparse_func k g s =
        Inr (\<forall>v \<in> set s. int (card (set (g ! v) \<inter> set s)) \<le> k)) \<and>
   (0 \<le> k \<and> wf_graph g \<and> v < length g \<and>
    (\<forall>u \<in> set vs. u < length g \<and> int (card (set (g ! u) \<inter> set (vs @ v # ws))) \<le> k) \<and>
    int (card (set (g ! v) \<inter> set (vs @ v # ws))) > k \<longrightarrow>
      make_k_sparse_func k g (vs @ v # ws) = Inr False)"
proof (intro conjI impI)
  assume a: "0 \<le> k \<and> wf_graph g \<and> vertex_subset g s"
  then have "\<forall>v \<in> set s. distinct (g ! v)"
    using wf_graphD(1) [of g] by (auto simp: vertex_subset_def)
  then show "make_k_sparse_func k g s =
      Inr (\<forall>v \<in> set s. int (card (set (g ! v) \<inter> set s)) \<le> k)"
    using a by (simp add: make_k_sparse_func_def is_k_sparse_total)
next
  assume a: "0 \<le> k \<and> wf_graph g \<and> v < length g \<and>
    (\<forall>u \<in> set vs. u < length g \<and> int (card (set (g ! u) \<inter> set (vs @ v # ws))) \<le> k) \<and>
    int (card (set (g ! v) \<inter> set (vs @ v # ws))) > k"
  then have d: "distinct (g ! u)" if "u < length g" for u
    using wf_graphD(1) [of g u] that by blast
  have "sparse_loop k g (vs @ v # ws) (vs @ v # ws) = Inr False"
  proof (rule sparse_loop_exit)
    show "0 \<le> k" using a by blast
    show "\<forall>u \<in> set vs. u < length g \<and> distinct (g ! u) \<and>
        int (card (set (g ! u) \<inter> set (vs @ v # ws))) \<le> k"
      using a d by blast
    show "v < length g" using a by blast
    show "distinct (g ! v)" using a d by blast
    show "int (card (set (g ! v) \<inter> set (vs @ v # ws))) > k" using a by blast
  qed
  then show "make_k_sparse_func k g (vs @ v # ws) = Inr False"
    by (simp add: make_k_sparse_func_def is_k_sparse_def)
qed

theorem make_k_sparse_func_correct_witness:
  "(0::int) \<le> 1 \<and> wf_graph [[1], [0, 2], [1, 3], [2, 4], [3]] \<and>
   vertex_subset [[1], [0, 2], [1, 3], [2, 4], [3]] [0, 1, 3, 4] \<and>
   make_k_sparse_func 1 [[1], [0, 2], [1, 3], [2, 4], [3]] [0, 1, 3, 4] = Inr True \<and>
   make_k_sparse_func 1 [[1], [0, 2], [1, 3], [2, 4], [3]] ([0] @ 1 # [2, 7]) = Inr False"
proof -
  let ?g = "[[1], [0, 2], [1, 3], [2, 4], [3]] :: graph"
  have k: "(0::int) \<le> 1" by simp
  have w: "wf_graph ?g" by code_simp
  have v: "vertex_subset ?g [0, 1, 3, 4]" by code_simp
  have c: "(\<forall>v \<in> set [0, 1, 3, 4]. int (card (set (?g ! v) \<inter> set [0, 1, 3, 4])) \<le> 1) = True"
    by code_simp
  have t: "make_k_sparse_func 1 ?g [0, 1, 3, 4] = Inr True"
    using make_k_sparse_func_correct [of 1 ?g "[0, 1, 3, 4]"] k w v c by presburger
  have e1: "(1::nat) < length ?g" by simp
  have e2: "\<forall>u \<in> set [0]. u < length ?g \<and> int (card (set (?g ! u) \<inter> set ([0] @ 1 # [2, 7]))) \<le> 1"
    by code_simp
  have e3: "int (card (set (?g ! 1) \<inter> set ([0] @ 1 # [2, 7]))) > 1"
    by code_simp
  have f: "make_k_sparse_func 1 ?g ([0] @ 1 # [2, 7]) = Inr False"
    using make_k_sparse_func_correct [of 1 ?g _ 1 "[0]" "[2, 7]"] k w e1 e2 e3 by blast
  show ?thesis using k w v t f by blast
qed

lemma divided_doctest_1:
  "is_k_divided 2 [[1], [0, 2], [1, 3], [2, 4], [3]] [0, 1, 3, 4] = Inr True"
  by code_simp

lemma divided_doctest_2:
  "is_k_divided 4 [[1], [0, 2], [1, 3], [2, 4], [3]] [0, 1, 2, 3, 4] = Inr False"
  by code_simp

lemma divided_doctest_3:
  "is_k_divided_compl 2 [[2, 3, 4], [3, 4], [0, 4], [0, 1], [0, 1, 2]] [0, 1, 3, 4] = Inr True"
  by code_simp

lemma divided_doctest_4:
  "is_k_divided_compl 1 [[2, 3, 4], [3, 4], [0, 4], [0, 1], [0, 1, 2]] [0, 1, 3, 4] = Inr False"
  by code_simp

section \<open>Correctness of the component search\<close>

lemma marked_update: "y < length ps \<Longrightarrow> marked (ps[y := True]) = insert y (marked ps)"
  by (auto simp: marked_def nth_list_update)

lemma marked_replicate: "marked (replicate n False) = {}"
  by (auto simp: marked_def)

lemma finite_marked: "finite (marked ps)"
proof -
  have "marked ps \<subseteq> {0..<length ps}" by (auto simp: marked_def)
  then show ?thesis by (rule finite_subset) simp
qed

lemma comp_of_refl: "v \<in> comp_of E v"
  by (simp add: comp_of_def)

lemma comp_of_step: "x \<in> comp_of E v \<Longrightarrow> (x, y) \<in> E \<Longrightarrow> y \<in> comp_of E v"
  by (auto simp: comp_of_def intro: rtrancl_into_rtrancl)

lemma comp_of_subset:
  assumes "E \<subseteq> A \<times> A" "v \<in> A"
  shows "comp_of E v \<subseteq> A"
proof
  fix u assume "u \<in> comp_of E v"
  then have "(v, u) \<in> E\<^sup>*" by (simp add: comp_of_def)
  then show "u \<in> A"
    by (induction rule: rtrancl_induct) (use assms in auto)
qed

lemma comp_of_closed_subset:
  assumes "v \<in> D" "\<And>x y. x \<in> D \<Longrightarrow> (x, y) \<in> E \<Longrightarrow> y \<in> D"
  shows "comp_of E v \<subseteq> D"
proof
  fix u assume "u \<in> comp_of E v"
  then have "(v, u) \<in> E\<^sup>*" by (simp add: comp_of_def)
  then show "u \<in> D"
    by (induction rule: rtrancl_induct) (use assms in auto)
qed

lemma comp_of_sym_eq:
  assumes "sym E" "u \<in> comp_of E v"
  shows "comp_of E u = comp_of E v"
proof -
  from assms(2) have vu: "(v, u) \<in> E\<^sup>*" by (simp add: comp_of_def)
  have "sym (E\<^sup>*)" using assms(1) by (rule sym_rtrancl)
  then have uv: "(u, v) \<in> E\<^sup>*" using vu by (rule symD)
  show ?thesis
    unfolding comp_of_def using vu uv by (auto intro: rtrancl_trans)
qed

lemma ctx_comp_subset:
  assumes "dfs_ctx skip g s E" "v \<in> set s"
  shows "comp_of E v \<subseteq> set s"
  using assms comp_of_subset [of E "set s" v] by (simp add: dfs_ctx_def)

lemma ctx_comp_finite:
  assumes "dfs_ctx skip g s E" "v \<in> set s"
  shows "finite (comp_of E v)"
  using ctx_comp_subset [OF assms] by (rule finite_subset) simp

lemma ctx_in_range:
  assumes "dfs_ctx skip g s E" "y \<in> set s"
  shows "y < length g"
  using assms by (simp add: dfs_ctx_def vertex_subset_def)

lemma ctx_edge:
  assumes "dfs_ctx skip g s E" "x \<in> set s" "y \<in> set s"
  shows "(x, y) \<in> E \<longleftrightarrow> \<not> skip (g ! x) y"
  using assms by (simp add: dfs_ctx_def)

lemma scan_inv_keep:
  assumes "scan_inv E n k P0 v0 x ds st"
    "y \<in> marked (pushed st) \<or> (x, y) \<notin> E"
  shows "scan_inv E n k P0 v0 x (ds @ [y]) st"
  using assms unfolding scan_inv_def by auto

lemma scan_inv_overflow:
  assumes ctx: "dfs_ctx skip g s E" and v0: "v0 \<in> set s"
    and inv: "scan_inv E n k P0 v0 x ds st"
    and y: "y \<notin> marked (pushed st)" "(x, y) \<in> E" and full: "compsize st \<ge> k"
  shows "k < int (card (comp_of E v0))"
proof -
  let ?D = "marked (pushed st) - P0"
  from inv have core: "core_inv E n k P0 v0 st" and x: "x \<in> ?D"
    by (simp_all add: scan_inv_def)
  from core have sub: "?D \<subseteq> comp_of E v0" and cs: "compsize st = int (card ?D)"
    by (simp_all add: core_inv_def)
  have "y \<in> comp_of E v0" using sub x y(2) by (blast intro: comp_of_step)
  moreover have "y \<notin> ?D" using y(1) by simp
  ultimately have "insert y ?D \<subseteq> comp_of E v0" using sub by blast
  then have "card (insert y ?D) \<le> card (comp_of E v0)"
    using ctx_comp_finite [OF ctx v0] by (rule card_mono [rotated])
  moreover have "card (insert y ?D) = card ?D + 1"
    using \<open>y \<notin> ?D\<close> finite_marked [of "pushed st"] by simp
  ultimately show ?thesis using cs full by linarith
qed

lemma scan_inv_push:
  assumes inv: "scan_inv E n k P0 v0 x ds st"
    and yn: "y < n" and y: "y \<notin> marked (pushed st)" "(x, y) \<in> E"
    and room: "\<not> compsize st \<ge> k"
  shows "scan_inv E n k P0 v0 x (ds @ [y])
    \<lparr>pushed = (pushed st)[y := True], stack = stack st @ [y], compsize = compsize st + 1\<rparr>"
    (is "scan_inv E n k P0 v0 x _ ?st")
proof -
  let ?M = "marked (pushed st)"
  from inv have core: "core_inv E n k P0 v0 st" and x: "x \<in> ?M - P0"
    and cl: "closed_except E P0 st {x}"
    and dn: "\<forall>z \<in> set ds. (x, z) \<in> E \<longrightarrow> z \<in> ?M"
    by (simp_all add: scan_inv_def)
  from core have len: "length (pushed st) = n" and P0: "P0 \<subseteq> ?M" and v0: "v0 \<in> ?M - P0"
    and sub: "?M - P0 \<subseteq> comp_of E v0" and cs: "compsize st = int (card (?M - P0))"
    and stk: "set (stack st) \<subseteq> ?M - P0"
    by (simp_all add: core_inv_def)
  have M': "marked (pushed ?st) = insert y ?M"
    using yn len by (simp add: marked_update)
  have yP0: "y \<notin> P0" using y(1) P0 by blast
  have D': "marked (pushed ?st) - P0 = insert y (?M - P0)"
    using M' yP0 by blast
  have ycomp: "y \<in> comp_of E v0" using sub x y(2) by (blast intro: comp_of_step)
  have card': "card (insert y (?M - P0)) = card (?M - P0) + 1"
    using y(1) finite_marked [of "pushed st"] by simp
  have "core_inv E n k P0 v0 ?st"
    unfolding core_inv_def D'
  proof (intro conjI)
    show "length (pushed ?st) = n" using len by simp
    show "P0 \<subseteq> marked (pushed ?st)" using P0 M' by blast
    show "v0 \<in> insert y (?M - P0)" using v0 by blast
    show "insert y (?M - P0) \<subseteq> comp_of E v0" using sub ycomp by blast
    show "compsize ?st = int (card (insert y (?M - P0)))" using cs card' by simp
    show "compsize ?st \<le> k" using room by simp
    show "set (stack ?st) \<subseteq> insert y (?M - P0)" using stk by auto
  qed
  moreover have "x \<in> marked (pushed ?st) - P0" using x D' by blast
  moreover have "closed_except E P0 ?st {x}"
    unfolding closed_except_def
  proof (intro ballI allI impI)
    fix a b assume a: "a \<in> marked (pushed ?st) - P0 - set (stack ?st) - {x}"
      and ab: "(a, b) \<in> E"
    from a have "a \<noteq> y" by auto
    with a D' have "a \<in> ?M - P0 - set (stack st) - {x}" by auto
    with cl ab have "b \<in> ?M" unfolding closed_except_def by blast
    then show "b \<in> marked (pushed ?st)" using M' by blast
  qed
  moreover have "\<forall>z \<in> set (ds @ [y]). (x, z) \<in> E \<longrightarrow> z \<in> marked (pushed ?st)"
    using dn M' by auto
  ultimately show ?thesis unfolding scan_inv_def by blast
qed

declare divided_while.simps [simp del]

lemma core_inv_vertex:
  assumes "dfs_ctx skip g s E" "v0 \<in> set s" "core_inv E n k P0 v0 st"
    "x \<in> marked (pushed st) - P0"
  shows "x \<in> set s"
proof -
  have "x \<in> comp_of E v0" using assms(3,4) unfolding core_inv_def by blast
  then show ?thesis using ctx_comp_subset [OF assms(1,2)] by blast
qed

lemma divided_scan_inv:
  assumes ctx: "dfs_ctx skip g s E" and v0: "v0 \<in> set s" and n: "n = length g"
  shows "scan_inv E n k P0 v0 x ds st \<Longrightarrow> set ys \<subseteq> set s \<Longrightarrow>
     (case divided_scan skip k g x ys st of
        Next st' \<Rightarrow> scan_inv E n k P0 v0 x (ds @ ys) st'
      | Return b \<Rightarrow> \<not> b \<and> k < int (card (comp_of E v0))
      | Raise e \<Rightarrow> False)"
proof (induction ys arbitrary: ds st)
  case Nil
  then show ?case by simp
next
  case (Cons y ys)
  from Cons.prems have inv: "scan_inv E n k P0 v0 x ds st"
    and ys: "y \<in> set s" "set ys \<subseteq> set s" by simp_all
  from inv have core: "core_inv E n k P0 v0 st" and xD: "x \<in> marked (pushed st) - P0"
    by (simp_all add: scan_inv_def)
  have len: "length (pushed st) = n" using core by (simp add: core_inv_def)
  have yn: "y < n" using ctx_in_range [OF ctx ys(1)] n by simp
  have xs: "x \<in> set s" by (rule core_inv_vertex [OF ctx v0 core xD])
  have xn: "x < length g" by (rule ctx_in_range [OF ctx xs])
  have edge: "(x, y) \<in> E \<longleftrightarrow> \<not> skip (g ! x) y" by (rule ctx_edge [OF ctx xs ys(1)])
  have app: "(ds @ [y]) @ ys = ds @ y # ys" by simp
  show ?case
  proof (cases "pushed st ! y \<or> skip (g ! x) y")
    case True
    then have eq: "divided_scan skip k g x (y # ys) st = divided_scan skip k g x ys st"
      using yn len xn by auto
    have "y \<in> marked (pushed st) \<or> (x, y) \<notin> E"
      using True edge yn len by (auto simp: marked_def)
    then have "scan_inv E n k P0 v0 x (ds @ [y]) st" by (rule scan_inv_keep [OF inv])
    from Cons.IH [OF this ys(2)] show ?thesis unfolding eq app .
  next
    case False
    then have ym: "y \<notin> marked (pushed st)" and e: "(x, y) \<in> E"
      using edge by (auto simp: marked_def)
    show ?thesis
    proof (cases "compsize st \<ge> k")
      case True
      then have eq: "divided_scan skip k g x (y # ys) st = Return False"
        using False yn len xn by simp
      have "k < int (card (comp_of E v0))"
        by (rule scan_inv_overflow [OF ctx v0 inv ym e True])
      then show ?thesis unfolding eq by simp
    next
      case room: False
      let ?st = "\<lparr>pushed = (pushed st)[y := True], stack = stack st @ [y],
        compsize = compsize st + 1\<rparr>"
      have eq: "divided_scan skip k g x (y # ys) st = divided_scan skip k g x ys ?st"
        using False room yn len xn by simp
      have "scan_inv E n k P0 v0 x (ds @ [y]) ?st"
        by (rule scan_inv_push [OF inv yn ym e room])
      from Cons.IH [OF this ys(2)] show ?thesis unfolding eq app .
    qed
  qed
qed

lemma while_inv_pop:
  assumes "while_inv E n k P0 v0 st" "stack st \<noteq> []"
  shows "scan_inv E n k P0 v0 (last (stack st)) [] (st\<lparr>stack := butlast (stack st)\<rparr>)"
proof -
  let ?x = "last (stack st)"
  let ?st1 = "st\<lparr>stack := butlast (stack st)\<rparr>"
  let ?D = "marked (pushed st) - P0"
  from assms(1) have core: "core_inv E n k P0 v0 st" and cl: "closed_except E P0 st {}"
    by (simp_all add: while_inv_def)
  have bl: "set (butlast (stack st)) \<subseteq> set (stack st)"
    by (meson in_set_butlastD subsetI)
  have mem: "a \<in> set (stack st) \<Longrightarrow> a \<noteq> ?x \<Longrightarrow> a \<in> set (butlast (stack st))" for a
    using assms(2) by (metis append_butlast_last_id in_set_conv_decomp rotate1.simps(2) set_ConsD set_rotate1)
  have stk: "set (stack st) \<subseteq> ?D" using core unfolding core_inv_def by blast
  have xD: "?x \<in> ?D" using stk assms(2) last_in_set by blast
  have p: "pushed ?st1 = pushed st" "stack ?st1 = butlast (stack st)"
    "compsize ?st1 = compsize st" by simp_all
  have "core_inv E n k P0 v0 ?st1"
    unfolding core_inv_def p using core stk bl unfolding core_inv_def by blast
  moreover have "closed_except E P0 ?st1 {?x}"
    unfolding closed_except_def p
  proof (intro ballI allI impI)
    fix a b assume a: "a \<in> ?D - set (butlast (stack st)) - {?x}" and ab: "(a, b) \<in> E"
    then have "a \<notin> set (stack st)" using mem by blast
    then have "a \<in> ?D - set (stack st) - {}" using a by blast
    then show "b \<in> marked (pushed st)" using cl ab unfolding closed_except_def by blast
  qed
  ultimately show ?thesis using xD unfolding scan_inv_def p by simp
qed

lemma scan_inv_done:
  assumes ctx: "dfs_ctx skip g s E" and inv: "scan_inv E n k P0 v0 x s st"
  shows "while_inv E n k P0 v0 st"
proof -
  from inv have core: "core_inv E n k P0 v0 st"
    and cl: "closed_except E P0 st {x}"
    and dn: "\<forall>y \<in> set s. (x, y) \<in> E \<longrightarrow> y \<in> marked (pushed st)"
    by (simp_all add: scan_inv_def)
  have E: "E \<subseteq> set s \<times> set s" using ctx by (simp add: dfs_ctx_def)
  have "closed_except E P0 st {}"
    unfolding closed_except_def
  proof (intro ballI allI impI)
    fix a b assume a: "a \<in> marked (pushed st) - P0 - set (stack st) - {}"
      and ab: "(a, b) \<in> E"
    show "b \<in> marked (pushed st)"
    proof (cases "a = x")
      case True
      have "b \<in> set s" using ab E by blast
      then show ?thesis using dn ab True by blast
    next
      case False
      then have "a \<in> marked (pushed st) - P0 - set (stack st) - {x}" using a by blast
      then show ?thesis using cl ab unfolding closed_except_def by blast
    qed
  qed
  then show ?thesis using core by (simp add: while_inv_def)
qed

lemma divided_while_inv:
  assumes "dfs_ctx skip g s E" "v0 \<in> set s" "n = length g" "while_inv E n k P0 v0 st"
  shows "case divided_while skip k g s st of
        Next st' \<Rightarrow> while_inv E n k P0 v0 st' \<and> stack st' = []
      | Return b \<Rightarrow> \<not> b \<and> k < int (card (comp_of E v0))
      | Raise e \<Rightarrow> False"
  using assms
proof (induction skip k g s st rule: divided_while.induct)
  case (1 skip k g s st)
  note ctx = "1.prems"(1) and v0 = "1.prems"(2) and n = "1.prems"(3) and inv = "1.prems"(4)
  show ?case
  proof (cases "stack st = []")
    case True
    then show ?thesis using inv by (simp add: divided_while.simps)
  next
    case False
    let ?x = "last (stack st)"
    let ?st1 = "st\<lparr>stack := butlast (stack st)\<rparr>"
    have sinv: "scan_inv E n k P0 v0 ?x [] ?st1" by (rule while_inv_pop [OF inv False])
    have scan: "case divided_scan skip k g ?x s ?st1 of
        Next st' \<Rightarrow> scan_inv E n k P0 v0 ?x ([] @ s) st'
      | Return b \<Rightarrow> \<not> b \<and> k < int (card (comp_of E v0))
      | Raise e \<Rightarrow> False"
      by (rule divided_scan_inv [OF ctx v0 n sinv]) simp
    show ?thesis
    proof (cases "divided_scan skip k g ?x s ?st1")
      case (Raise e)
      then show ?thesis using scan by simp
    next
      case (Return b)
      then show ?thesis using scan False by (simp add: divided_while.simps)
    next
      case (Next st')
      then have "scan_inv E n k P0 v0 ?x s st'" using scan by simp
      then have "while_inv E n k P0 v0 st'" by (rule scan_inv_done [OF ctx])
      from "1.IH" [OF False Next ctx v0 n this]
      show ?thesis using False Next by (simp add: divided_while.simps)
    qed
  qed
qed

lemma outer_inv_start: "outer_inv E n k (replicate n False)"
  by (simp add: outer_inv_def marked_replicate)

lemma while_inv_start:
  assumes n: "length ps = n" and k: "1 \<le> k" and v: "v < n" "\<not> ps ! v"
  shows "while_inv E n k (marked ps) v \<lparr>pushed = ps[v := True], stack = [v], compsize = 1\<rparr>"
    (is "while_inv E n k ?P0 v ?st")
proof -
  have M: "marked (pushed ?st) = insert v ?P0" using n v(1) by (simp add: marked_update)
  have vP: "v \<notin> ?P0" using v(2) by (simp add: marked_def)
  have D: "marked (pushed ?st) - ?P0 = {v}" using M vP by blast
  have "core_inv E n k ?P0 v ?st"
    unfolding core_inv_def D using n k M by (simp add: comp_of_refl) blast
  moreover have "closed_except E ?P0 ?st {}"
    unfolding closed_except_def D by simp
  ultimately show ?thesis by (simp add: while_inv_def)
qed

lemma while_inv_finish:
  assumes ctx: "dfs_ctx skip g s E" and out: "outer_inv E n k ps"
    and inv: "while_inv E n k (marked ps) v st" and emp: "stack st = []"
  shows "outer_inv E n k (pushed st) \<and> int (card (comp_of E v)) \<le> k"
proof -
  let ?P0 = "marked ps"
  let ?M = "marked (pushed st)"
  let ?D = "?M - ?P0"
  from inv have core: "core_inv E n k ?P0 v st" and cl: "closed_except E ?P0 st {}"
    by (simp_all add: while_inv_def)
  from core have len: "length (pushed st) = n" and P0: "?P0 \<subseteq> ?M" and vD: "v \<in> ?D"
    and sub: "?D \<subseteq> comp_of E v" and cs: "compsize st = int (card ?D)"
    and le: "compsize st \<le> k"
    by (simp_all add: core_inv_def)
  from out have closedP: "\<And>x y. x \<in> ?P0 \<Longrightarrow> (x, y) \<in> E \<Longrightarrow> y \<in> ?P0"
    and small: "\<And>u. u \<in> ?P0 \<Longrightarrow> int (card (comp_of E u)) \<le> k"
    unfolding outer_inv_def by blast+
  have sym: "sym E" using ctx by (simp add: dfs_ctx_def)
  have closedD: "y \<in> ?D" if "x \<in> ?D" "(x, y) \<in> E" for x y
  proof -
    have "y \<in> ?M" using cl that emp unfolding closed_except_def by simp
    moreover have "y \<notin> ?P0"
    proof
      assume "y \<in> ?P0"
      moreover have "(y, x) \<in> E" using sym that(2) by (rule symD)
      ultimately have "x \<in> ?P0" by (rule closedP)
      then show False using that(1) by blast
    qed
    ultimately show ?thesis by blast
  qed
  have "comp_of E v \<subseteq> ?D" using vD closedD by (rule comp_of_closed_subset)
  then have eq: "?D = comp_of E v" using sub by blast
  have cv: "int (card (comp_of E v)) \<le> k" using cs le eq by simp
  have "outer_inv E n k (pushed st)"
    unfolding outer_inv_def
  proof (intro conjI ballI allI impI)
    show "length (pushed st) = n" by (rule len)
  next
    fix x y assume "x \<in> ?M" "(x, y) \<in> E"
    then show "y \<in> ?M" using closedP closedD P0 by blast
  next
    fix u assume "u \<in> ?M"
    then consider "u \<in> ?P0" | "u \<in> ?D" by blast
    then show "int (card (comp_of E u)) \<le> k"
    proof cases
      case 1
      then show ?thesis by (rule small)
    next
      case 2
      then have "u \<in> comp_of E v" using eq by simp
      then have "comp_of E u = comp_of E v" by (rule comp_of_sym_eq [OF sym])
      then show ?thesis using cv by simp
    qed
  qed
  then show ?thesis using cv by simp
qed

lemma divided_loop_step:
  assumes ctx: "dfs_ctx skip g s E" and n: "n = length g" and k: "1 \<le> k"
    and out: "outer_inv E n k ps" and v: "v \<in> set s"
  shows "\<exists>ps'. outer_inv E n k ps' \<and>
     (\<forall>vs. divided_loop skip k g s (v # vs) ps =
        (if int (card (comp_of E v)) \<le> k then divided_loop skip k g s vs ps'
         else Inr False))"
proof -
  have len: "length ps = n" using out by (simp add: outer_inv_def)
  have vn: "v < n" using ctx_in_range [OF ctx v] n by simp
  show ?thesis
  proof (cases "ps ! v")
    case True
    then have "v \<in> marked ps" using vn len by (simp add: marked_def)
    then have "int (card (comp_of E v)) \<le> k" using out unfolding outer_inv_def by blast
    then have "\<forall>vs. divided_loop skip k g s (v # vs) ps =
        (if int (card (comp_of E v)) \<le> k then divided_loop skip k g s vs ps
         else Inr False)"
      using True vn len by simp
    then show ?thesis using out by blast
  next
    case False
    let ?st = "\<lparr>pushed = ps[v := True], stack = [v], compsize = 1\<rparr>"
    have winv: "while_inv E n k (marked ps) v ?st"
      by (rule while_inv_start [OF len k vn False])
    have res: "case divided_while skip k g s ?st of
        Next st' \<Rightarrow> while_inv E n k (marked ps) v st' \<and> stack st' = []
      | Return b \<Rightarrow> \<not> b \<and> k < int (card (comp_of E v))
      | Raise e \<Rightarrow> False"
      by (rule divided_while_inv [OF ctx v n winv])
    show ?thesis
    proof (cases "divided_while skip k g s ?st")
      case (Raise e)
      then show ?thesis using res by simp
    next
      case (Return b)
      then have "\<not> b" "k < int (card (comp_of E v))" using res by simp_all
      then have "\<forall>vs. divided_loop skip k g s (v # vs) ps =
          (if int (card (comp_of E v)) \<le> k then divided_loop skip k g s vs ps
           else Inr False)"
        using False vn len Return by simp
      then show ?thesis using out by blast
    next
      case (Next st')
      then have "while_inv E n k (marked ps) v st'" "stack st' = []" using res by simp_all
      from while_inv_finish [OF ctx out this]
      have o': "outer_inv E n k (pushed st')" and c: "int (card (comp_of E v)) \<le> k"
        by simp_all
      have "\<forall>vs. divided_loop skip k g s (v # vs) ps =
          (if int (card (comp_of E v)) \<le> k then divided_loop skip k g s vs (pushed st')
           else Inr False)"
        using False vn len Next c by simp
      then show ?thesis using o' by blast
    qed
  qed
qed

lemma divided_loop_total:
  assumes ctx: "dfs_ctx skip g s E" and n: "n = length g" and k: "1 \<le> k"
  shows "outer_inv E n k ps \<Longrightarrow> set vs \<subseteq> set s \<Longrightarrow>
     divided_loop skip k g s vs ps = Inr (\<forall>v \<in> set vs. int (card (comp_of E v)) \<le> k)"
proof (induction vs arbitrary: ps)
  case Nil
  then show ?case by simp
next
  case (Cons v vs)
  then have v: "v \<in> set s" and vs: "set vs \<subseteq> set s" by simp_all
  from divided_loop_step [OF ctx n k Cons.prems(1) v] obtain ps' where
    o': "outer_inv E n k ps'"
    and eq: "divided_loop skip k g s (v # vs) ps =
        (if int (card (comp_of E v)) \<le> k then divided_loop skip k g s vs ps'
         else Inr False)"
    by blast
  show ?case unfolding eq using Cons.IH [OF o' vs] by simp
qed

lemma divided_loop_exit:
  assumes ctx: "dfs_ctx skip g s E" and n: "n = length g" and k: "1 \<le> k"
    and v: "v \<in> set s" "k < int (card (comp_of E v))"
  shows "outer_inv E n k ps \<Longrightarrow> set vs \<subseteq> set s \<Longrightarrow>
     \<forall>u \<in> set vs. int (card (comp_of E u)) \<le> k \<Longrightarrow>
     divided_loop skip k g s (vs @ v # ws) ps = Inr False"
proof (induction vs arbitrary: ps)
  case Nil
  from divided_loop_step [OF ctx n k Nil(1) v(1)] show ?case using v(2) by auto
next
  case (Cons u vs)
  then have u: "u \<in> set s" "int (card (comp_of E u)) \<le> k" and vs: "set vs \<subseteq> set s"
    "\<forall>u \<in> set vs. int (card (comp_of E u)) \<le> k" by simp_all
  from divided_loop_step [OF ctx n k Cons.prems(1) u(1)] obtain ps' where
    o': "outer_inv E n k ps'"
    and eq: "divided_loop skip k g s (u # vs @ v # ws) ps =
        (if int (card (comp_of E u)) \<le> k then divided_loop skip k g s (vs @ v # ws) ps'
         else Inr False)"
    by blast
  show ?case using eq u(2) Cons.IH [OF o' vs] by simp
qed

lemma divided_search_correct:
  assumes "dfs_ctx skip g s E" "1 \<le> k"
  shows "divided_loop skip k g s s (replicate (length g) False) =
     Inr (\<forall>v \<in> set s. int (card (comp_of E v)) \<le> k)"
  by (rule divided_loop_total [OF assms(1) refl assms(2) outer_inv_start]) simp

lemma dfs_ctx_divided:
  assumes "wf_graph g" "vertex_subset g s"
  shows "dfs_ctx skip_divided g s (induced_adjacency g s)"
  unfolding dfs_ctx_def
proof (intro conjI ballI)
  show "vertex_subset g s" by (rule assms(2))
  show "induced_adjacency g s \<subseteq> set s \<times> set s" by (auto simp: induced_adjacency_def)
  show "sym (induced_adjacency g s)"
  proof (rule symI)
    fix x y assume "(x, y) \<in> induced_adjacency g s"
    then have xy: "x \<in> set s" "y \<in> set s" "y \<in> set (g ! x)"
      by (simp_all add: induced_adjacency_def)
    have "x < length g" using assms(2) xy(1) by (simp add: vertex_subset_def)
    from wf_graphD(4) [OF assms(1) this xy(3)] show "(y, x) \<in> induced_adjacency g s"
      using xy by (simp add: induced_adjacency_def)
  qed
next
  fix x y assume "x \<in> set s" "y \<in> set s"
  then show "(x, y) \<in> induced_adjacency g s \<longleftrightarrow> \<not> skip_divided (g ! x) y"
    by (simp add: induced_adjacency_def skip_divided_def)
qed

lemma is_k_divided_total:
  assumes "1 \<le> k" "wf_graph g" "vertex_subset g s"
  shows "is_k_divided k g s = Inr (\<forall>v \<in> set s. int (card (component_of g s v)) \<le> k)"
  unfolding is_k_divided_def component_of_def
  by (rule divided_search_correct [OF dfs_ctx_divided [OF assms(2,3)] assms(1)])

text \<open>
  Claim C3. For \<open>k \<ge> 1\<close>, a graph \<open>g\<close> and a vertex subset \<open>s\<close> of \<open>g\<close>,
  \<open>make_k_divided_func k\<close> returns a predicate, and the predicate is True on \<open>(g, s)\<close>
  exactly if every connected component of the subgraph induced by \<open>s\<close> has at most \<open>k\<close>
  vertices. The loop over the vertices returns False at the first vertex whose component
  exceeds \<open>k\<close>, whatever follows that vertex in the list.
\<close>

theorem make_k_divided_func_correct:
  "(1 \<le> k \<and> wf_graph g \<and> vertex_subset g s \<longrightarrow>
      make_k_divided_func k = Inr (is_k_divided k) \<and>
      is_k_divided k g s = Inr (\<forall>v \<in> set s. int (card (component_of g s v)) \<le> k)) \<and>
   (1 \<le> k \<and> wf_graph g \<and> vertex_subset g s \<and> set vs \<subseteq> set s \<and> v \<in> set s \<and>
    (\<forall>u \<in> set vs. int (card (component_of g s u)) \<le> k) \<and>
    k < int (card (component_of g s v)) \<longrightarrow>
      divided_loop skip_divided k g s (vs @ v # ws) (replicate (length g) False) = Inr False)"
proof (intro conjI impI)
  assume "1 \<le> k \<and> wf_graph g \<and> vertex_subset g s"
  then show "make_k_divided_func k = Inr (is_k_divided k)"
    by (simp add: make_k_divided_func_def)
next
  assume "1 \<le> k \<and> wf_graph g \<and> vertex_subset g s"
  then show "is_k_divided k g s = Inr (\<forall>v \<in> set s. int (card (component_of g s v)) \<le> k)"
    by (simp add: is_k_divided_total)
next
  assume a: "1 \<le> k \<and> wf_graph g \<and> vertex_subset g s \<and> set vs \<subseteq> set s \<and> v \<in> set s \<and>
    (\<forall>u \<in> set vs. int (card (component_of g s u)) \<le> k) \<and>
    k < int (card (component_of g s v))"
  then have ctx: "dfs_ctx skip_divided g s (induced_adjacency g s)"
    by (simp add: dfs_ctx_divided)
  show "divided_loop skip_divided k g s (vs @ v # ws) (replicate (length g) False) = Inr False"
  proof (rule divided_loop_exit [OF ctx refl _ _ _ outer_inv_start])
    show "1 \<le> k" using a by blast
    show "v \<in> set s" using a by blast
    show "k < int (card (comp_of (induced_adjacency g s) v))"
      using a by (simp add: component_of_def)
    show "set vs \<subseteq> set s" using a by blast
    show "\<forall>u \<in> set vs. int (card (comp_of (induced_adjacency g s) u)) \<le> k"
      using a by (simp add: component_of_def)
  qed
qed

theorem make_k_divided_func_correct_witness:
  "(1::int) \<le> 2 \<and> wf_graph [[1], [0, 2], [1, 3], [2, 4], [3]] \<and>
   vertex_subset [[1], [0, 2], [1, 3], [2, 4], [3]] [0, 1, 3, 4] \<and>
   make_k_divided_func 2 = Inr (is_k_divided 2) \<and>
   is_k_divided 2 [[1], [0, 2], [1, 3], [2, 4], [3]] [0, 1, 3, 4] = Inr True \<and>
   (Inr True :: error + bool) =
     Inr (\<forall>v \<in> set [0, 1, 3, 4].
       int (card (component_of [[1], [0, 2], [1, 3], [2, 4], [3]] [0, 1, 3, 4] v)) \<le> 2) \<and>
   wf_graph [[1], [0]] \<and> vertex_subset [[1], [0]] [0, 1] \<and>
   1 < int (card (component_of [[1], [0]] [0, 1] 0)) \<and>
   divided_loop skip_divided 1 [[1], [0]] [0, 1] ([] @ 0 # [5])
     (replicate (length [[1], [0 :: nat]]) False) = Inr False"
proof -
  let ?g = "[[1], [0, 2], [1, 3], [2, 4], [3]] :: graph"
  let ?s = "[0, 1, 3, 4] :: nat list"
  have k: "(1::int) \<le> 2" by simp
  have w: "wf_graph ?g" by code_simp
  have v: "vertex_subset ?g ?s" by code_simp
  have t: "is_k_divided 2 ?g ?s = Inr True" by code_simp
  have m: "make_k_divided_func 2 = Inr (is_k_divided 2)"
    using make_k_divided_func_correct [of 2 ?g ?s] k w v by blast
  have "is_k_divided 2 ?g ?s =
      Inr (\<forall>v \<in> set ?s. int (card (component_of ?g ?s v)) \<le> 2)"
    using make_k_divided_func_correct [of 2 ?g ?s] k w v by blast
  with t have c: "(Inr True :: error + bool) =
      Inr (\<forall>v \<in> set ?s. int (card (component_of ?g ?s v)) \<le> 2)"
    by simp
  let ?h = "[[1], [0]] :: graph"
  let ?r = "[0, 1] :: nat list"
  have w2: "wf_graph ?h" by code_simp
  have v2: "vertex_subset ?h ?r" by code_simp
  have e: "(0, 1) \<in> induced_adjacency ?h ?r" by (simp add: induced_adjacency_def)
  have "0 \<in> comp_of (induced_adjacency ?h ?r) 0" by (rule comp_of_refl)
  moreover from this e have "1 \<in> comp_of (induced_adjacency ?h ?r) 0"
    by (rule comp_of_step)
  ultimately have sub: "{0, 1} \<subseteq> component_of ?h ?r 0"
    by (simp add: component_of_def)
  have "finite (component_of ?h ?r 0)"
    unfolding component_of_def
    by (rule ctx_comp_finite [OF dfs_ctx_divided [OF w2 v2]]) simp
  then have "card {0, 1 :: nat} \<le> card (component_of ?h ?r 0)"
    using sub by (rule card_mono)
  then have big: "1 < int (card (component_of ?h ?r 0))" by simp
  have h1: "set [] \<subseteq> set ?r" "0 \<in> set ?r"
    "\<forall>u \<in> set []. int (card (component_of ?h ?r u)) \<le> 1" by simp_all
  have x: "divided_loop skip_divided 1 ?h ?r ([] @ 0 # [5]) (replicate (length ?h) False)
      = Inr False"
    using make_k_divided_func_correct [of 1 ?h ?r "[]" 0 "[5]"] w2 v2 h1 big by blast
  show ?thesis using k w v m t c w2 v2 big x by blast
qed

section \<open>The complement variants\<close>

lemma length_complement: "length (complement g) = length g"
  by (simp add: complement_def)

lemma nth_complement:
  "v < length g \<Longrightarrow>
   complement g ! v = filter (\<lambda>u. u \<noteq> v \<and> u \<notin> set (g ! v)) [0..<length g]"
  by (simp add: complement_def)

lemma set_nth_complement:
  "v < length g \<Longrightarrow>
   set (complement g ! v) = {u. u < length g \<and> u \<noteq> v \<and> u \<notin> set (g ! v)}"
  by (auto simp: nth_complement)

lemma distinct_nth_complement: "v < length g \<Longrightarrow> distinct (complement g ! v)"
  by (simp add: nth_complement)

lemma wf_complement:
  assumes "wf_graph g"
  shows "wf_graph (complement g)"
proof (rule wf_graphI)
  fix v assume "v < length (complement g)"
  then have v: "v < length g" by (simp add: length_complement)
  show "distinct (complement g ! v)" using v by (rule distinct_nth_complement)
  show "v \<notin> set (complement g ! v)" using v by (simp add: set_nth_complement)
next
  fix v u assume "v < length (complement g)" "u \<in> set (complement g ! v)"
  then show "u < length (complement g)"
    by (simp add: length_complement set_nth_complement)
next
  fix v u assume "v < length (complement g)" "u \<in> set (complement g ! v)"
  then have v: "v < length g" and u: "u < length g" "u \<noteq> v" "u \<notin> set (g ! v)"
    by (simp_all add: length_complement set_nth_complement)
  have "v \<notin> set (g ! u)"
  proof
    assume "v \<in> set (g ! u)"
    from wf_graphD(4) [OF assms u(1) this] show False using u(3) by simp
  qed
  then show "v \<in> set (complement g ! u)" using u v by (simp add: set_nth_complement)
qed

lemma vertex_subset_complement: "vertex_subset (complement g) s = vertex_subset g s"
  by (simp add: vertex_subset_def length_complement)

text \<open>The relation that \<open>is_k_divided_compl\<close> follows: non-adjacency in \<open>g\<close>.\<close>

lemma dfs_ctx_divided_compl:
  assumes "wf_graph g" "vertex_subset g s"
  shows "dfs_ctx skip_divided_compl g s
    {(x, y). x \<in> set s \<and> y \<in> set s \<and> y \<notin> set (g ! x)}"
  unfolding dfs_ctx_def
proof (intro conjI ballI)
  show "vertex_subset g s" by (rule assms(2))
  show "{(x, y). x \<in> set s \<and> y \<in> set s \<and> y \<notin> set (g ! x)} \<subseteq> set s \<times> set s" by auto
  show "sym {(x, y). x \<in> set s \<and> y \<in> set s \<and> y \<notin> set (g ! x)}"
  proof (rule symI)
    fix x y assume "(x, y) \<in> {(x, y). x \<in> set s \<and> y \<in> set s \<and> y \<notin> set (g ! x)}"
    then have xy: "x \<in> set s" "y \<in> set s" "y \<notin> set (g ! x)" by simp_all
    have yn: "y < length g" using assms(2) xy(2) by (simp add: vertex_subset_def)
    have "x \<notin> set (g ! y)"
    proof
      assume "x \<in> set (g ! y)"
      from wf_graphD(4) [OF assms(1) yn this] show False using xy(3) by simp
    qed
    then show "(y, x) \<in> {(x, y). x \<in> set s \<and> y \<in> set s \<and> y \<notin> set (g ! x)}"
      using xy by simp
  qed
next
  fix x y assume "x \<in> set s" "y \<in> set s"
  then show "(x, y) \<in> {(x, y). x \<in> set s \<and> y \<in> set s \<and> y \<notin> set (g ! x)} \<longleftrightarrow>
      \<not> skip_divided_compl (g ! x) y"
    by (simp add: skip_divided_compl_def)
qed

lemma comp_of_mono: "E \<subseteq> F \<Longrightarrow> comp_of E v \<subseteq> comp_of F v"
  unfolding comp_of_def using rtrancl_mono [of E F] by blast

lemma comp_of_reflcl: "comp_of (E\<^sup>=) v = comp_of E v"
  by (simp add: comp_of_def)

lemma comp_of_complement:
  assumes "vertex_subset g s"
  shows "comp_of {(x, y). x \<in> set s \<and> y \<in> set s \<and> y \<notin> set (g ! x)} v =
         comp_of (induced_adjacency (complement g) s) v"
    (is "comp_of ?N v = comp_of ?C v")
proof -
  have in_range: "x < length g" if "x \<in> set s" for x
    using assms that by (simp add: vertex_subset_def)
  have "?C \<subseteq> ?N"
    using in_range by (auto simp: induced_adjacency_def set_nth_complement)
  then have 1: "comp_of ?C v \<subseteq> comp_of ?N v" by (rule comp_of_mono)
  have "?N \<subseteq> ?C\<^sup>="
    using in_range by (auto simp: induced_adjacency_def set_nth_complement)
  then have "comp_of ?N v \<subseteq> comp_of (?C\<^sup>=) v" by (rule comp_of_mono)
  then have 2: "comp_of ?N v \<subseteq> comp_of ?C v" by (simp only: comp_of_reflcl)
  show ?thesis using 1 2 by blast
qed

lemma is_k_divided_compl_total:
  assumes "1 \<le> k" "wf_graph g" "vertex_subset g s"
  shows "is_k_divided_compl k g s =
    Inr (\<forall>v \<in> set s. int (card (component_of (complement g) s v)) \<le> k)"
proof -
  have "is_k_divided_compl k g s =
      Inr (\<forall>v \<in> set s. int (card (comp_of
        {(x, y). x \<in> set s \<and> y \<in> set s \<and> y \<notin> set (g ! x)} v)) \<le> k)"
    unfolding is_k_divided_compl_def
    by (rule divided_search_correct [OF dfs_ctx_divided_compl [OF assms(2,3)] assms(1)])
  then show ?thesis
    by (simp only: comp_of_complement [OF assms(3)] component_of_def)
qed

lemma divided_compl_eq:
  assumes "1 \<le> k" "wf_graph g" "vertex_subset g s"
  shows "is_k_divided_compl k g s = is_k_divided k (complement g) s"
proof -
  have "vertex_subset (complement g) s" using assms(3) by (simp add: vertex_subset_complement)
  from is_k_divided_total [OF assms(1) wf_complement [OF assms(2)] this]
  show ?thesis by (simp only: is_k_divided_compl_total [OF assms])
qed

lemma length_filter_card_set:
  "distinct xs \<Longrightarrow> length (filter P xs) = card {x \<in> set xs. P x}"
proof -
  assume "distinct xs"
  then have "distinct (filter P xs)" by simp
  then have "length (filter P xs) = card (set (filter P xs))"
    by (rule distinct_card [symmetric])
  then show ?thesis by simp
qed

lemma sparse_compl_count_eq:
  "v < length g \<Longrightarrow> d \<le> k \<Longrightarrow>
   sparse_compl_count k g v xs d =
     Inr (d + int (length (filter (\<lambda>x. x \<noteq> v \<and> x \<notin> set (g ! v)) xs)) \<le> k)"
  by (induction xs arbitrary: d) auto

lemma sparse_compl_loop_total:
  assumes "0 \<le> k" "distinct s"
  shows "\<forall>v \<in> set vs. v < length g \<Longrightarrow>
    sparse_compl_loop k g s vs =
      Inr (\<forall>v \<in> set vs. int (card {x \<in> set s. x \<noteq> v \<and> x \<notin> set (g ! v)}) \<le> k)"
  by (induction vs)
    (auto simp: sparse_compl_count_eq [OF _ assms(1)] length_filter_card_set [OF assms(2)])

lemma is_k_sparse_compl_total:
  assumes "0 \<le> k" "vertex_subset g s"
  shows "is_k_sparse_compl k g s =
    Inr (\<forall>v \<in> set s. int (card {x \<in> set s. x \<noteq> v \<and> x \<notin> set (g ! v)}) \<le> k)"
proof -
  have "distinct s" using assms(2) by (simp add: vertex_subset_def strict_sorted_iff)
  moreover have "\<forall>v \<in> set s. v < length g" using assms(2) by (simp add: vertex_subset_def)
  ultimately show ?thesis
    unfolding is_k_sparse_compl_def by (rule sparse_compl_loop_total [OF assms(1)])
qed

lemma sparse_compl_eq:
  assumes "0 \<le> k" "vertex_subset g s"
  shows "is_k_sparse_compl k g s = is_k_sparse k (complement g) s"
proof -
  have in_range: "x < length g" if "x \<in> set s" for x
    using assms(2) that by (simp add: vertex_subset_def)
  have vs: "vertex_subset (complement g) s"
    using assms(2) by (simp add: vertex_subset_complement)
  have d: "\<forall>v \<in> set s. distinct (complement g ! v)"
    using in_range by (simp add: distinct_nth_complement)
  have "set (complement g ! v) \<inter> set s = {x \<in> set s. x \<noteq> v \<and> x \<notin> set (g ! v)}"
    if "v \<in> set s" for v
    using in_range that by (auto simp: set_nth_complement)
  then have "(\<forall>v \<in> set s. int (card (set (complement g ! v) \<inter> set s)) \<le> k) \<longleftrightarrow>
      (\<forall>v \<in> set s. int (card {x \<in> set s. x \<noteq> v \<and> x \<notin> set (g ! v)}) \<le> k)"
    by simp
  then show ?thesis
    by (simp only: is_k_sparse_total [OF assms(1) vs d] is_k_sparse_compl_total [OF assms])
qed

text \<open>
  Claim C7. On a graph \<open>g\<close> and a vertex subset \<open>s\<close> of \<open>g\<close>, the predicate of
  \<open>make_k_divided_compl_func k\<close> (for \<open>k \<ge> 1\<close>) equals the predicate of
  \<open>make_k_divided_func k\<close> on the complement of \<open>g\<close>, and the predicate of
  \<open>make_k_sparse_compl_func k\<close> (for \<open>k \<ge> 0\<close>) equals the predicate of
  \<open>make_k_sparse_func k\<close> on the complement of \<open>g\<close>. The complement is a graph on the same
  vertices.
\<close>

theorem complement_variants:
  "(wf_graph g \<longrightarrow> wf_graph (complement g) \<and> length (complement g) = length g) \<and>
   (1 \<le> k \<and> wf_graph g \<and> vertex_subset g s \<longrightarrow>
      make_k_divided_compl_func k = Inr (is_k_divided_compl k) \<and>
      make_k_divided_func k = Inr (is_k_divided k) \<and>
      is_k_divided_compl k g s = is_k_divided k (complement g) s) \<and>
   (0 \<le> k' \<and> vertex_subset g s \<longrightarrow>
      make_k_sparse_compl_func k' g s = make_k_sparse_func k' (complement g) s)"
proof (intro conjI impI)
  assume "wf_graph g"
  then show "wf_graph (complement g)" by (rule wf_complement)
next
  show "length (complement g) = length g" by (rule length_complement)
next
  assume "1 \<le> k \<and> wf_graph g \<and> vertex_subset g s"
  then show "make_k_divided_compl_func k = Inr (is_k_divided_compl k)"
    by (simp add: make_k_divided_compl_func_def)
next
  assume "1 \<le> k \<and> wf_graph g \<and> vertex_subset g s"
  then show "make_k_divided_func k = Inr (is_k_divided k)"
    by (simp add: make_k_divided_func_def)
next
  assume "1 \<le> k \<and> wf_graph g \<and> vertex_subset g s"
  then show "is_k_divided_compl k g s = is_k_divided k (complement g) s"
    by (simp add: divided_compl_eq)
next
  assume "0 \<le> k' \<and> vertex_subset g s"
  then show "make_k_sparse_compl_func k' g s = make_k_sparse_func k' (complement g) s"
    by (simp add: make_k_sparse_compl_func_def make_k_sparse_func_def sparse_compl_eq)
qed

theorem complement_variants_witness:
  "wf_graph [[2, 3, 4], [3, 4], [0, 4], [0, 1], [0, 1, 2]] \<and>
   complement [[2, 3, 4], [3, 4], [0, 4], [0, 1], [0, 1, 2]] =
     [[1], [0, 2], [1, 3], [2, 4], [3]] \<and>
   wf_graph (complement [[2, 3, 4], [3, 4], [0, 4], [0, 1], [0, 1, 2]]) \<and>
   (1::int) \<le> 2 \<and> vertex_subset [[2, 3, 4], [3, 4], [0, 4], [0, 1], [0, 1, 2]] [0, 1, 3, 4] \<and>
   make_k_divided_compl_func 2 = Inr (is_k_divided_compl 2) \<and>
   is_k_divided_compl 2 [[2, 3, 4], [3, 4], [0, 4], [0, 1], [0, 1, 2]] [0, 1, 3, 4] = Inr True \<and>
   is_k_divided 2 (complement [[2, 3, 4], [3, 4], [0, 4], [0, 1], [0, 1, 2]]) [0, 1, 3, 4] =
     Inr True \<and>
   (0::int) \<le> 1 \<and>
   make_k_sparse_compl_func 1 [[2, 3, 4], [3, 4], [0, 4], [0, 1], [0, 1, 2]] [0, 1, 3, 4] =
     Inr True \<and>
   make_k_sparse_func 1 (complement [[2, 3, 4], [3, 4], [0, 4], [0, 1], [0, 1, 2]])
     [0, 1, 3, 4] = Inr True"
proof -
  let ?g = "[[2, 3, 4], [3, 4], [0, 4], [0, 1], [0, 1, 2]] :: graph"
  let ?s = "[0, 1, 3, 4] :: nat list"
  have w: "wf_graph ?g" by code_simp
  have c: "complement ?g = [[1], [0, 2], [1, 3], [2, 4], [3]]" by code_simp
  have v: "vertex_subset ?g ?s" by code_simp
  have k: "(1::int) \<le> 2" "(0::int) \<le> 1" by simp_all
  have wc: "wf_graph (complement ?g)"
    using complement_variants [of ?g 2 ?s 1] w by blast
  have m: "make_k_divided_compl_func 2 = Inr (is_k_divided_compl 2)"
    using complement_variants [of ?g 2 ?s 1] k w v by blast
  have d1: "is_k_divided_compl 2 ?g ?s = Inr True" by code_simp
  have "is_k_divided_compl 2 ?g ?s = is_k_divided 2 (complement ?g) ?s"
    using complement_variants [of ?g 2 ?s 1] k w v by blast
  with d1 have d2: "is_k_divided 2 (complement ?g) ?s = Inr True" by simp
  have s1: "make_k_sparse_compl_func 1 ?g ?s = Inr True" by code_simp
  have "make_k_sparse_compl_func 1 ?g ?s = make_k_sparse_func 1 (complement ?g) ?s"
    using complement_variants [of ?g 2 ?s 1] k v by blast
  with s1 have s2: "make_k_sparse_func 1 (complement ?g) ?s = Inr True" by simp
  show ?thesis using w c wc k v m d1 d2 s1 s2 by blast
qed

section \<open>Assertions of the entry points\<close>

lemma fset_search_no_assert:
  "(\<And>s. p s \<noteq> Inl AssertionError) \<Longrightarrow> fset_search p ss \<noteq> Inl AssertionError"
  by (induction ss) (auto split: sum.splits)

lemma has_fset_no_assert:
  "never_asserts f \<Longrightarrow> has_fset f b g \<noteq> Inl AssertionError"
  by (simp add: has_fset_def Let_def never_asserts_def fset_search_no_assert)

lemma has_fset_with_last_no_assert:
  "never_asserts f \<Longrightarrow> has_fset_with_last f b g \<noteq> Inl AssertionError"
  by (simp add: has_fset_with_last_def Let_def never_asserts_def fset_search_no_assert)

lemma passes_no_assert:
  assumes "\<And>f b g. never_asserts f \<Longrightarrow> chk f b g \<noteq> Inl AssertionError"
    "never_asserts f1" "never_asserts f2"
  shows "passes chk f1 f2 b1 b2 g \<noteq> Inl AssertionError"
  using assms(1) [OF assms(2), of b1 g] assms(1) [OF assms(3), of b2 g]
  by (auto simp: passes_def split: sum.splits)

lemma filter_graphs_no_assert:
  "(\<And>g. t g \<noteq> Inl AssertionError) \<Longrightarrow> filter_graphs t gs \<noteq> Inl AssertionError"
  by (induction gs) (auto split: sum.splits)

lemma add_edges_no_assert: "add_edges g vs m \<noteq> Inl AssertionError"
  by (induction vs arbitrary: g) auto

lemma extensions_no_assert:
  "(\<And>g. t g \<noteq> Inl AssertionError) \<Longrightarrow> extensions t oldg vsets n \<noteq> Inl AssertionError"
proof (induction vsets)
  case Nil
  then show ?case by simp
next
  case (Cons vset vsets)
  have c: "candidate oldg vset n \<noteq> Inl AssertionError"
    by (simp add: candidate_def add_edges_no_assert)
  show ?case using c Cons by (auto split: sum.splits)
qed

lemma big_list_no_assert:
  assumes "never_asserts f1" "never_asserts f2"
  shows "counterexamples_up_big_list lib f1 f2 n b1 b2 old \<noteq> Inl AssertionError"
proof (induction old)
  case Nil
  then show ?case by simp
next
  case (Cons oldg old)
  have t: "passes has_fset_with_last f1 f2 b1 b2 g \<noteq> Inl AssertionError" for g
    by (rule passes_no_assert [OF has_fset_with_last_no_assert assms])
  have "extensions (passes has_fset_with_last f1 f2 b1 b2) oldg
      (powerset lib [0..<n - 1]) n \<noteq> Inl AssertionError"
    by (rule extensions_no_assert [OF t])
  then show ?case using Cons by (auto split: sum.splits)
qed

lemma counterexamples_up_no_assert:
  assumes "never_asserts f1" "never_asserts f2"
  shows "counterexamples_up lib f1 f2 b1 b2 n old \<noteq> Inl AssertionError"
  using big_list_no_assert [OF assms, of lib n b1 b2 old]
  by (auto simp: counterexamples_up_def split: sum.splits)

lemma counterexamples_zero_no_assert:
  assumes "never_asserts f1" "never_asserts f2"
  shows "counterexamples_zero lib f1 f2 b1 b2 \<noteq> Inl AssertionError"
  unfolding counterexamples_zero_def
  by (rule filter_graphs_no_assert [OF passes_no_assert [OF has_fset_no_assert assms]])

lemma extremals_loop_no_assert:
  assumes "extremals_loop lib f1 f2 b1 b2 n oldgs = Some r"
  shows "never_asserts f1 \<longrightarrow> never_asserts f2 \<longrightarrow> r \<noteq> Inl AssertionError"
proof (rule extremals_loop.raw_induct
    [where P = "\<lambda>lib f1 f2 b1 b2 n oldgs r.
       never_asserts f1 \<longrightarrow> never_asserts f2 \<longrightarrow> r \<noteq> Inl AssertionError",
     OF _ assms])
  fix loop lib f1 f2 b1 b2 n oldgs r
  assume IH: "\<And>lib f1 f2 b1 b2 n oldgs r.
      loop lib f1 f2 b1 b2 n oldgs = Some r \<Longrightarrow>
      never_asserts f1 \<longrightarrow> never_asserts f2 \<longrightarrow> r \<noteq> Inl AssertionError"
    and body: "(case counterexamples_up lib f1 f2 b1 b2 n oldgs of
        Inl e \<Rightarrow> Some (Inl e)
      | Inr gs \<Rightarrow>
          if length gs = 0 then Some (Inr (n, oldgs))
          else loop lib f1 f2 b1 b2 (n + 1) gs) = Some r"
  show "never_asserts f1 \<longrightarrow> never_asserts f2 \<longrightarrow> r \<noteq> Inl AssertionError"
  proof (intro impI)
    assume na: "never_asserts f1" "never_asserts f2"
    note up = counterexamples_up_no_assert [OF na, of lib b1 b2 n oldgs]
    show "r \<noteq> Inl AssertionError"
    proof (cases "counterexamples_up lib f1 f2 b1 b2 n oldgs")
      case (Inl e)
      then show ?thesis using body up by auto
    next
      case (Inr gs)
      show ?thesis
      proof (cases "length gs = 0")
        case True
        then show ?thesis using body Inr by auto
      next
        case False
        then have "loop lib f1 f2 b1 b2 (n + 1) gs = Some r"
          using body Inr by simp
        from IH [OF this] show ?thesis using na by blast
      qed
    qed
  qed
qed

lemma extremals_no_assert:
  assumes "never_asserts f1" "never_asserts f2"
  shows "extremals lib f1 f2 b1 b2 \<noteq> Some (Inl AssertionError)"
proof
  assume e: "extremals lib f1 f2 b1 b2 = Some (Inl AssertionError)"
  note z = counterexamples_zero_no_assert [OF assms, of lib b1 b2]
  show False
  proof (cases "counterexamples_zero lib f1 f2 b1 b2")
    case (Inl x)
    then show ?thesis using e z by (simp add: extremals_def)
  next
    case (Inr gs)
    show ?thesis
    proof (cases "length gs = 0")
      case True
      then show ?thesis using e Inr by (simp add: extremals_def)
    next
      case False
      then have "extremals_loop lib f1 f2 b1 b2 1 gs = Some (Inl AssertionError)"
        using e Inr by (simp add: extremals_def)
      from extremals_loop_no_assert [OF this] show ?thesis using assms by blast
    qed
  qed
qed

lemma divided_scan_no_assert: "divided_scan skip k g x ys st \<noteq> Raise AssertionError"
  by (induction ys arbitrary: st) auto

lemma divided_while_no_assert: "divided_while skip k g s st \<noteq> Raise AssertionError"
proof (induction skip k g s st rule: divided_while.induct)
  case (1 skip k g s st)
  show ?case
  proof (cases "stack st = []")
    case True
    then show ?thesis by (simp add: divided_while.simps)
  next
    case False
    show ?thesis
    proof (cases "divided_scan skip k g (last (stack st)) s (st\<lparr>stack := butlast (stack st)\<rparr>)")
      case (Raise e)
      then show ?thesis
        using False divided_scan_no_assert [of skip k g "last (stack st)" s
          "st\<lparr>stack := butlast (stack st)\<rparr>"]
        by (simp add: divided_while.simps)
    next
      case (Return b)
      then show ?thesis using False by (simp add: divided_while.simps)
    next
      case (Next st')
      from "1.IH" [OF False Next] show ?thesis using False Next
        by (simp add: divided_while.simps)
    qed
  qed
qed

lemma divided_loop_no_assert: "divided_loop skip k g s vs ps \<noteq> Inl AssertionError"
proof (induction vs arbitrary: ps)
  case Nil
  then show ?case by simp
next
  case (Cons v vs)
  show ?case
    using Cons divided_while_no_assert
      [of skip k g s "\<lparr>pushed = ps[v := True], stack = [v], compsize = 1\<rparr>"]
    by (auto split: flow.splits)
qed

lemma never_asserts_divided: "never_asserts (is_k_divided k)"
  by (simp add: never_asserts_def is_k_divided_def divided_loop_no_assert)

lemma never_asserts_divided_compl: "never_asserts (is_k_divided_compl k)"
  by (simp add: never_asserts_def is_k_divided_compl_def divided_loop_no_assert)

lemma sparse_loop_no_assert: "sparse_loop k g s vs \<noteq> Inl AssertionError"
  by (induction vs) auto

lemma sparse_compl_count_no_assert: "sparse_compl_count k g v xs d \<noteq> Inl AssertionError"
  by (induction xs arbitrary: d) auto

lemma sparse_compl_loop_no_assert: "sparse_compl_loop k g s vs \<noteq> Inl AssertionError"
proof (induction vs)
  case Nil
  then show ?case by simp
next
  case (Cons v vs)
  then show ?case
    using sparse_compl_count_no_assert [of k g v s 0] by (auto split: sum.splits)
qed

lemma never_asserts_sparse: "never_asserts (make_k_sparse_func k)"
  by (simp add: never_asserts_def make_k_sparse_func_def is_k_sparse_def sparse_loop_no_assert)

lemma never_asserts_sparse_compl: "never_asserts (make_k_sparse_compl_func k)"
  by (simp add: never_asserts_def make_k_sparse_compl_func_def is_k_sparse_compl_def
      sparse_compl_loop_no_assert)

text \<open>
  Claim C9. \<open>find_extremals\<close> of dividedramsey.py ends with an AssertionError when
  \<open>k < 1\<close>, \<open>a < 0\<close> or \<open>b < 0\<close>, whatever the functions of \<open>isograph\<close> are (none of
  them is reached); \<open>make_k_divided_func\<close> and \<open>make_k_divided_compl_func\<close> end with an
  AssertionError when \<open>k < 1\<close>; \<open>find_extremals\<close> of sparseramsey.py ends with an
  AssertionError when \<open>k < 0\<close>, \<open>a < 0\<close> or \<open>b < 0\<close>. Under valid parameters the
  constructors return their predicates, each \<open>find_extremals\<close> is the run of the engine
  on them, and no AssertionError comes out of it.
\<close>

theorem parameter_assertions:
  "(k < 1 \<or> a < 0 \<or> b < 0 \<longrightarrow>
      divided_find_extremals lib k a b = Some (Inl AssertionError)) \<and>
   (k < 1 \<longrightarrow> make_k_divided_func k = Inl AssertionError \<and>
              make_k_divided_compl_func k = Inl AssertionError) \<and>
   (k < 0 \<or> a < 0 \<or> b < 0 \<longrightarrow>
      sparse_find_extremals lib k a b = Some (Inl AssertionError)) \<and>
   (1 \<le> k \<and> 0 \<le> a \<and> 0 \<le> b \<longrightarrow>
      make_k_divided_func k = Inr (is_k_divided k) \<and>
      make_k_divided_compl_func k = Inr (is_k_divided_compl k) \<and>
      divided_find_extremals lib k a b =
        extremals lib (is_k_divided k) (is_k_divided_compl k) a b \<and>
      divided_find_extremals lib k a b \<noteq> Some (Inl AssertionError)) \<and>
   (0 \<le> k \<and> 0 \<le> a \<and> 0 \<le> b \<longrightarrow>
      sparse_find_extremals lib k a b =
        extremals lib (make_k_sparse_func k) (make_k_sparse_compl_func k) a b \<and>
      sparse_find_extremals lib k a b \<noteq> Some (Inl AssertionError))"
proof (intro conjI impI)
  assume "k < 1 \<or> a < 0 \<or> b < 0"
  then show "divided_find_extremals lib k a b = Some (Inl AssertionError)"
    by (auto simp: divided_find_extremals_def)
next
  assume "k < 1"
  then show "make_k_divided_func k = Inl AssertionError"
    by (simp add: make_k_divided_func_def)
next
  assume "k < 1"
  then show "make_k_divided_compl_func k = Inl AssertionError"
    by (simp add: make_k_divided_compl_func_def)
next
  assume "k < 0 \<or> a < 0 \<or> b < 0"
  then show "sparse_find_extremals lib k a b = Some (Inl AssertionError)"
    by (auto simp: sparse_find_extremals_def)
next
  assume "1 \<le> k \<and> 0 \<le> a \<and> 0 \<le> b"
  then show "make_k_divided_func k = Inr (is_k_divided k)"
    by (simp add: make_k_divided_func_def)
next
  assume "1 \<le> k \<and> 0 \<le> a \<and> 0 \<le> b"
  then show "make_k_divided_compl_func k = Inr (is_k_divided_compl k)"
    by (simp add: make_k_divided_compl_func_def)
next
  assume "1 \<le> k \<and> 0 \<le> a \<and> 0 \<le> b"
  then show "divided_find_extremals lib k a b =
      extremals lib (is_k_divided k) (is_k_divided_compl k) a b"
    by (simp add: divided_find_extremals_def make_k_divided_func_def
        make_k_divided_compl_func_def)
next
  assume "1 \<le> k \<and> 0 \<le> a \<and> 0 \<le> b"
  then have "divided_find_extremals lib k a b =
      extremals lib (is_k_divided k) (is_k_divided_compl k) a b"
    by (simp add: divided_find_extremals_def make_k_divided_func_def
        make_k_divided_compl_func_def)
  then show "divided_find_extremals lib k a b \<noteq> Some (Inl AssertionError)"
    using extremals_no_assert [OF never_asserts_divided never_asserts_divided_compl]
    by simp
next
  assume "0 \<le> k \<and> 0 \<le> a \<and> 0 \<le> b"
  then show "sparse_find_extremals lib k a b =
      extremals lib (make_k_sparse_func k) (make_k_sparse_compl_func k) a b"
    by (simp add: sparse_find_extremals_def)
next
  assume "0 \<le> k \<and> 0 \<le> a \<and> 0 \<le> b"
  then have "sparse_find_extremals lib k a b =
      extremals lib (make_k_sparse_func k) (make_k_sparse_compl_func k) a b"
    by (simp add: sparse_find_extremals_def)
  then show "sparse_find_extremals lib k a b \<noteq> Some (Inl AssertionError)"
    using extremals_no_assert [OF never_asserts_sparse never_asserts_sparse_compl]
    by simp
qed

theorem parameter_assertions_witness:
  "((0::int) < 1 \<or> (1::int) < 0 \<or> (1::int) < 0) \<and>
   divided_find_extremals model_isograph 0 1 1 = Some (Inl AssertionError) \<and>
   make_k_divided_func 0 = Inl AssertionError \<and>
   make_k_divided_compl_func 0 = Inl AssertionError \<and>
   ((0::int) < 0 \<or> (- 1::int) < 0 \<or> (1::int) < 0) \<and>
   sparse_find_extremals model_isograph 0 (- 1) 1 = Some (Inl AssertionError) \<and>
   ((1::int) \<le> 1 \<and> (0::int) \<le> 2 \<and> (0::int) \<le> 2) \<and>
   make_k_divided_func 1 = Inr (is_k_divided 1) \<and>
   divided_find_extremals model_isograph 1 2 2 =
     extremals model_isograph (is_k_divided 1) (is_k_divided_compl 1) 2 2 \<and>
   divided_find_extremals model_isograph 1 2 2 = Some (Inr (2, [[[]]])) \<and>
   divided_find_extremals model_isograph 1 2 2 \<noteq> Some (Inl AssertionError) \<and>
   sparse_find_extremals model_isograph 0 2 2 = Some (Inr (2, [[[]]])) \<and>
   sparse_find_extremals model_isograph 0 2 2 \<noteq> Some (Inl AssertionError)"
proof -
  have h1: "(0::int) < 1 \<or> (1::int) < 0 \<or> (1::int) < 0" by simp
  have h2: "(0::int) < 0 \<or> (- 1::int) < 0 \<or> (1::int) < 0" by simp
  have h3: "(1::int) \<le> 1 \<and> (0::int) \<le> 2 \<and> (0::int) \<le> 2" by simp
  have h4: "(0::int) \<le> 0 \<and> (0::int) \<le> 2 \<and> (0::int) \<le> 2" by simp
  have a1: "divided_find_extremals model_isograph 0 1 1 = Some (Inl AssertionError)"
    using parameter_assertions [of 0 1 1 model_isograph] h1 by blast
  have a2: "make_k_divided_func 0 = Inl AssertionError \<and>
      make_k_divided_compl_func 0 = Inl AssertionError"
    using parameter_assertions [of 0 1 1 model_isograph] by simp
  have a3: "sparse_find_extremals model_isograph 0 (- 1) 1 = Some (Inl AssertionError)"
    using parameter_assertions [of 0 "- 1" 1 model_isograph] h2 by blast
  have v1: "make_k_divided_func 1 = Inr (is_k_divided 1) \<and>
      divided_find_extremals model_isograph 1 2 2 =
        extremals model_isograph (is_k_divided 1) (is_k_divided_compl 1) 2 2 \<and>
      divided_find_extremals model_isograph 1 2 2 \<noteq> Some (Inl AssertionError)"
    using parameter_assertions [of 1 2 2 model_isograph] h3 by blast
  have v2: "sparse_find_extremals model_isograph 0 2 2 \<noteq> Some (Inl AssertionError)"
    using parameter_assertions [of 0 2 2 model_isograph] h4 by blast
  have e1: "divided_find_extremals model_isograph 1 2 2 = Some (Inr (2, [[[]]]))"
    by code_simp
  have e2: "sparse_find_extremals model_isograph 0 2 2 = Some (Inr (2, [[[]]]))"
    by code_simp
  show ?thesis using h1 h2 h3 a1 a2 a3 v1 v2 e1 e2 by blast
qed

section \<open>The reported number and the reported graphs\<close>

lemma filter_graphs_subset: "filter_graphs t gs = Inr r \<Longrightarrow> set r \<subseteq> set gs"
proof (induction gs arbitrary: r)
  case Nil
  then show ?case by simp
next
  case (Cons g gs)
  from Cons.prems obtain keep r' where t: "t g = Inr keep"
    and r': "filter_graphs t gs = Inr r'" and r: "r = (if keep then g # r' else r')"
    by (auto split: sum.splits)
  from Cons.IH [OF r'] show ?case using r by auto
qed

lemma add_edges_length: "add_edges g vs m = Inr g' \<Longrightarrow> length g' = length g"
proof (induction vs arbitrary: g)
  case Nil
  then show ?case by simp
next
  case (Cons v vs)
  from Cons.prems have "add_edges (g[v := g ! v @ [m]]) vs m = Inr g'"
    by (auto split: if_splits)
  from Cons.IH [OF this] show ?case by simp
qed

lemma candidate_length: "candidate oldg vset n = Inr g \<Longrightarrow> length g = length oldg + 1"
  using add_edges_length [of "oldg @ [vset]" vset "n - 1" g] by (simp add: candidate_def)

lemma extensions_length:
  "extensions t oldg vsets n = Inr r \<Longrightarrow> \<forall>g \<in> set r. length g = length oldg + 1"
proof (induction vsets arbitrary: r)
  case Nil
  then show ?case by simp
next
  case (Cons vset vsets)
  from Cons.prems obtain g keep r' where c: "candidate oldg vset n = Inr g"
    and r': "extensions t oldg vsets n = Inr r'" and r: "r = (if keep then g # r' else r')"
    by (auto split: sum.splits)
  from Cons.IH [OF r'] candidate_length [OF c] show ?case using r by auto
qed

lemma big_list_length:
  "counterexamples_up_big_list lib f1 f2 n b1 b2 old = Inr r \<Longrightarrow>
   \<forall>g \<in> set old. length g = m \<Longrightarrow> \<forall>g \<in> set r. length g = m + 1"
proof (induction old arbitrary: r)
  case Nil
  then show ?case by simp
next
  case (Cons oldg old)
  from Cons.prems(1) obtain r1 r2 where
    r1: "extensions (passes has_fset_with_last f1 f2 b1 b2) oldg
           (powerset lib [0..<n - 1]) n = Inr r1"
    and r2: "counterexamples_up_big_list lib f1 f2 n b1 b2 old = Inr r2"
    and r: "r = r1 @ r2"
    by (auto split: sum.splits)
  have "\<forall>g \<in> set r1. length g = m + 1"
    using extensions_length [OF r1] Cons.prems(2) by simp
  moreover have "\<forall>g \<in> set r2. length g = m + 1"
    using Cons.IH [OF r2] Cons.prems(2) by simp
  ultimately show ?case using r by auto
qed

lemma counterexamples_up_length:
  assumes "isograph_keeps_order lib"
    "counterexamples_up lib f1 f2 b1 b2 n old = Inr gs" "\<forall>g \<in> set old. length g = m"
  shows "\<forall>g \<in> set gs. length g = m + 1"
proof -
  from assms(2) obtain cs where
    cs: "counterexamples_up_big_list lib f1 f2 n b1 b2 old = Inr cs"
    and gs: "gs = unique_iso lib cs"
    by (auto simp: counterexamples_up_def split: sum.splits)
  have "\<forall>g \<in> set cs. length g = m + 1" by (rule big_list_length [OF cs assms(3)])
  then show ?thesis using assms(1) gs unfolding isograph_keeps_order_def by blast
qed

lemma counterexamples_zero_length:
  assumes "isograph_keeps_order lib" "counterexamples_zero lib f1 f2 b1 b2 = Inr gs"
  shows "\<forall>g \<in> set gs. length g = 0"
  using filter_graphs_subset [OF assms(2) [unfolded counterexamples_zero_def]] assms(1)
  unfolding isograph_keeps_order_def by blast

lemma extremals_loop_consistent:
  assumes "extremals_loop lib f1 f2 b1 b2 n oldgs = Some r"
  shows "isograph_keeps_order lib \<and> oldgs \<noteq> [] \<and> (\<forall>g \<in> set oldgs. length g + 1 = n) \<longrightarrow>
    (\<forall>n' gs. r = Inr (n', gs) \<longrightarrow>
       1 \<le> n' \<and> gs \<noteq> [] \<and> (\<forall>g \<in> set gs. length g = n' - 1))"
proof (rule extremals_loop.raw_induct
    [where P = "\<lambda>lib f1 f2 b1 b2 n oldgs r.
       isograph_keeps_order lib \<and> oldgs \<noteq> [] \<and> (\<forall>g \<in> set oldgs. length g + 1 = n) \<longrightarrow>
       (\<forall>n' gs. r = Inr (n', gs) \<longrightarrow>
          1 \<le> n' \<and> gs \<noteq> [] \<and> (\<forall>g \<in> set gs. length g = n' - 1))",
     OF _ assms])
  fix loop lib f1 f2 b1 b2 n oldgs r
  assume IH: "\<And>lib f1 f2 b1 b2 n oldgs r.
      loop lib f1 f2 b1 b2 n oldgs = Some r \<Longrightarrow>
      isograph_keeps_order lib \<and> oldgs \<noteq> [] \<and> (\<forall>g \<in> set oldgs. length g + 1 = n) \<longrightarrow>
      (\<forall>n' gs. r = Inr (n', gs) \<longrightarrow>
         1 \<le> n' \<and> gs \<noteq> [] \<and> (\<forall>g \<in> set gs. length g = n' - 1))"
    and body: "(case counterexamples_up lib f1 f2 b1 b2 n oldgs of
        Inl e \<Rightarrow> Some (Inl e)
      | Inr gs \<Rightarrow>
          if length gs = 0 then Some (Inr (n, oldgs))
          else loop lib f1 f2 b1 b2 (n + 1) gs) = Some r"
  show "isograph_keeps_order lib \<and> oldgs \<noteq> [] \<and> (\<forall>g \<in> set oldgs. length g + 1 = n) \<longrightarrow>
      (\<forall>n' gs. r = Inr (n', gs) \<longrightarrow>
         1 \<le> n' \<and> gs \<noteq> [] \<and> (\<forall>g \<in> set gs. length g = n' - 1))"
  proof (intro impI allI)
    fix n' gs'
    assume inv: "isograph_keeps_order lib \<and> oldgs \<noteq> [] \<and>
        (\<forall>g \<in> set oldgs. length g + 1 = n)"
      and r: "r = Inr (n', gs')"
    then have ko: "isograph_keeps_order lib" and ne: "oldgs \<noteq> []"
      and len: "\<forall>g \<in> set oldgs. length g + 1 = n" by simp_all
    have n1: "1 \<le> n" using ne len by (cases oldgs) auto
    have len': "\<forall>g \<in> set oldgs. length g = n - 1" using len by auto
    show "1 \<le> n' \<and> gs' \<noteq> [] \<and> (\<forall>g \<in> set gs'. length g = n' - 1)"
    proof (cases "counterexamples_up lib f1 f2 b1 b2 n oldgs")
      case (Inl e)
      then show ?thesis using body r by simp
    next
      case (Inr gs)
      show ?thesis
      proof (cases "length gs = 0")
        case True
        then have "n' = n" "gs' = oldgs" using body Inr r by simp_all
        then show ?thesis using n1 ne len' by simp
      next
        case False
        then have call: "loop lib f1 f2 b1 b2 (n + 1) gs = Some r"
          using body Inr by simp
        have "\<forall>g \<in> set gs. length g = (n - 1) + 1"
          by (rule counterexamples_up_length [OF ko Inr len'])
        then have "\<forall>g \<in> set gs. length g + 1 = n + 1" using n1 by simp
        moreover have "gs \<noteq> []" using False by simp
        ultimately show ?thesis using IH [OF call] ko r by blast
      qed
    qed
  qed
qed

text \<open>
  Claim C10. When the functions of \<open>isograph\<close> keep the order of the graphs and
  \<open>extremals\<close> returns a pair \<open>(n, gs)\<close>: if \<open>n \<ge> 1\<close> then \<open>gs\<close> is not empty and every
  graph in \<open>gs\<close> has exactly \<open>n - 1\<close> vertices, and if \<open>n = 0\<close> then \<open>gs\<close> is empty.
\<close>

theorem extremals_consistent:
  "isograph_keeps_order lib \<and> extremals lib f1 f2 b1 b2 = Some (Inr (n, gs)) \<longrightarrow>
     (1 \<le> n \<longrightarrow> gs \<noteq> [] \<and> (\<forall>g \<in> set gs. length g = n - 1)) \<and>
     (n = 0 \<longrightarrow> gs = [])"
proof (intro impI)
  assume a: "isograph_keeps_order lib \<and> extremals lib f1 f2 b1 b2 = Some (Inr (n, gs))"
  then have ko: "isograph_keeps_order lib"
    and e: "extremals lib f1 f2 b1 b2 = Some (Inr (n, gs))" by simp_all
  show "(1 \<le> n \<longrightarrow> gs \<noteq> [] \<and> (\<forall>g \<in> set gs. length g = n - 1)) \<and> (n = 0 \<longrightarrow> gs = [])"
  proof (cases "counterexamples_zero lib f1 f2 b1 b2")
    case (Inl x)
    then show ?thesis using e by (simp add: extremals_def)
  next
    case (Inr gs0)
    show ?thesis
    proof (cases "length gs0 = 0")
      case True
      then show ?thesis using e Inr by (simp add: extremals_def)
    next
      case False
      then have call: "extremals_loop lib f1 f2 b1 b2 1 gs0 = Some (Inr (n, gs))"
        using e Inr by (simp add: extremals_def)
      have "\<forall>g \<in> set gs0. length g + 1 = 1"
        using counterexamples_zero_length [OF ko Inr] by simp
      moreover have "gs0 \<noteq> []" using False by simp
      ultimately have "1 \<le> n \<and> gs \<noteq> [] \<and> (\<forall>g \<in> set gs. length g = n - 1)"
        using extremals_loop_consistent [OF call] ko by blast
      then show ?thesis by simp
    qed
  qed
qed

lemma model_unique_iso_subset: "set (model_unique_iso gs) \<subseteq> set gs"
proof (induction gs rule: model_unique_iso.induct)
  case 1
  then show ?case by simp
next
  case (2 g gs)
  have "set (filter (\<lambda>h. \<not> model_isomorphic g h) gs) \<subseteq> set gs" by auto
  with 2 show ?case by auto
qed

lemma model_keeps_order: "isograph_keeps_order model_isograph"
  unfolding isograph_keeps_order_def
proof (intro conjI allI impI)
  show "\<forall>g \<in> set (graphs model_isograph 0). length g = 0"
    by (simp add: model_isograph_def)
next
  fix gs :: "graph list" and m
  assume "\<forall>g \<in> set gs. length g = m"
  then show "\<forall>g \<in> set (unique_iso model_isograph gs). length g = m"
    using model_unique_iso_subset [of gs] by (auto simp: model_isograph_def)
qed

theorem extremals_consistent_witness:
  "isograph_keeps_order model_isograph \<and>
   extremals model_isograph is_independent is_clique 2 2 = Some (Inr (2, [[[]]])) \<and>
   (1::nat) \<le> 2 \<and> [[[]]] \<noteq> ([] :: graph list) \<and>
   list_all (\<lambda>g. length g = 2 - 1) ([[[]]] :: graph list) \<and>
   extremals model_isograph is_independent is_clique 0 2 = Some (Inr (0, []))"
proof -
  have ko: "isograph_keeps_order model_isograph" by (rule model_keeps_order)
  have e: "extremals model_isograph is_independent is_clique 2 2 = Some (Inr (2, [[[]]]))"
    by code_simp
  have z: "extremals model_isograph is_independent is_clique 0 2 = Some (Inr (0, []))"
    by code_simp
  have "(1 \<le> (2::nat) \<longrightarrow> [[[]]] \<noteq> ([] :: graph list) \<and>
      (\<forall>g \<in> set ([[[]]] :: graph list). length g = 2 - 1)) \<and>
      ((2::nat) = 0 \<longrightarrow> [[[]]] = ([] :: graph list))"
    using extremals_consistent [of model_isograph is_independent is_clique 2 2 2 "[[[]]]"]
      ko e by blast
  then have "[[[]]] \<noteq> ([] :: graph list) \<and>
      list_all (\<lambda>g. length g = 2 - 1) ([[[]]] :: graph list)"
    by (simp add: list_all_iff)
  then show ?thesis using ko e z by simp
qed

section \<open>Candidate graphs\<close>

lemma length_join_vertex: "length (join_vertex g vs) = length g + 1"
  by (simp add: join_vertex_def)

lemma join_vertex_index: "v < length (join_vertex g vs) \<Longrightarrow> v < length g \<or> v = length g"
  by (auto simp: length_join_vertex)

lemma nth_join_vertex:
  "u < length g \<Longrightarrow>
   join_vertex g vs ! u = (if u \<in> set vs then g ! u @ [length g] else g ! u)"
  by (simp add: join_vertex_def nth_append)

lemma nth_join_vertex_last: "join_vertex g vs ! length g = vs"
  by (simp add: join_vertex_def nth_append)

lemma add_edges_map:
  "distinct vs \<Longrightarrow> \<forall>v \<in> set vs. v < length g \<Longrightarrow>
   add_edges g vs m =
     Inr (map (\<lambda>u. if u \<in> set vs then g ! u @ [m] else g ! u) [0..<length g])"
proof (induction vs arbitrary: g)
  case Nil
  then show ?case by (simp add: map_nth)
next
  case (Cons v vs)
  let ?g = "g[v := g ! v @ [m]]"
  from Cons.prems have v: "v < length g" "v \<notin> set vs" and d: "distinct vs"
    and r: "\<forall>u \<in> set vs. u < length ?g" by simp_all
  have "add_edges g (v # vs) m = add_edges ?g vs m" using v(1) by simp
  also have "\<dots> = Inr (map (\<lambda>u. if u \<in> set vs then ?g ! u @ [m] else ?g ! u) [0..<length ?g])"
    by (rule Cons.IH [OF d r])
  also have "map (\<lambda>u. if u \<in> set vs then ?g ! u @ [m] else ?g ! u) [0..<length ?g] =
      map (\<lambda>u. if u \<in> set (v # vs) then g ! u @ [m] else g ! u) [0..<length g]"
    using v by (auto simp: nth_list_update)
  finally show ?case .
qed

lemma candidate_join:
  assumes "length oldg + 1 = n" "distinct vset" "\<forall>v \<in> set vset. v < length oldg"
  shows "candidate oldg vset n = Inr (join_vertex oldg vset)"
proof -
  let ?g0 = "oldg @ [vset]"
  let ?m = "length oldg"
  have r: "\<forall>v \<in> set vset. v < length ?g0" using assms(3) by auto
  have m: "?m \<notin> set vset" using assms(3) by auto
  have "candidate oldg vset n = add_edges ?g0 vset ?m"
    using assms(1) by (auto simp: candidate_def)
  also have "\<dots> = Inr (map (\<lambda>u. if u \<in> set vset then ?g0 ! u @ [?m] else ?g0 ! u)
      [0..<length ?g0])"
    by (rule add_edges_map [OF assms(2) r])
  also have "map (\<lambda>u. if u \<in> set vset then ?g0 ! u @ [?m] else ?g0 ! u) [0..<length ?g0] =
      join_vertex oldg vset"
    using m by (simp add: join_vertex_def nth_append)
  finally show ?thesis .
qed

lemma wf_join_vertex:
  assumes wf: "wf_graph g" and d: "distinct vs" and r: "\<forall>v \<in> set vs. v < length g"
  shows "wf_graph (join_vertex g vs)"
proof (rule wf_graphI)
  fix v assume "v < length (join_vertex g vs)"
  then consider "v < length g" | "v = length g" using join_vertex_index [of v g vs] by blast
  then show "distinct (join_vertex g vs ! v)"
  proof cases
    case 1
    have "length g \<notin> set (g ! v)" using wf_graphD(3) [OF wf 1, of "length g"] by auto
    then show ?thesis using 1 wf_graphD(1) [OF wf 1] by (simp add: nth_join_vertex)
  next
    case 2
    then show ?thesis using d by (simp add: nth_join_vertex_last)
  qed
next
  fix v assume "v < length (join_vertex g vs)"
  then consider "v < length g" | "v = length g" using join_vertex_index [of v g vs] by blast
  then show "v \<notin> set (join_vertex g vs ! v)"
  proof cases
    case 1
    then show ?thesis using wf_graphD(2) [OF wf 1] by (simp add: nth_join_vertex)
  next
    case 2
    then show ?thesis using r by (auto simp: nth_join_vertex_last)
  qed
next
  fix v u assume "v < length (join_vertex g vs)" and u: "u \<in> set (join_vertex g vs ! v)"
  then consider "v < length g" | "v = length g" using join_vertex_index [of v g vs] by blast
  then show "u < length (join_vertex g vs)"
  proof cases
    case 1
    then have "u \<in> set (g ! v) \<or> u = length g"
      using u by (auto simp: nth_join_vertex split: if_splits)
    then show ?thesis using wf_graphD(3) [OF wf 1, of u] by (auto simp: length_join_vertex)
  next
    case 2
    then show ?thesis using u r by (auto simp: nth_join_vertex_last length_join_vertex)
  qed
next
  fix v u assume "v < length (join_vertex g vs)" and u: "u \<in> set (join_vertex g vs ! v)"
  then consider "v < length g" | "v = length g" using join_vertex_index [of v g vs] by blast
  then show "v \<in> set (join_vertex g vs ! u)"
  proof cases
    case 1
    show ?thesis
    proof (cases "u = length g")
      case True
      then have "v \<in> set vs"
        using u 1 wf_graphD(3) [OF wf 1, of u] by (auto simp: nth_join_vertex split: if_splits)
      then show ?thesis using True by (simp add: nth_join_vertex_last)
    next
      case False
      then have uv: "u \<in> set (g ! v)"
        using u 1 by (auto simp: nth_join_vertex split: if_splits)
      have ul: "u < length g" by (rule wf_graphD(3) [OF wf 1 uv])
      have "v \<in> set (g ! u)" by (rule wf_graphD(4) [OF wf 1 uv])
      then show ?thesis using ul by (simp add: nth_join_vertex)
    qed
  next
    case 2
    then have "u \<in> set vs" using u by (simp add: nth_join_vertex_last)
    then show ?thesis using 2 r by (simp add: nth_join_vertex)
  qed
qed

lemma induced_prefix_join_vertex:
  assumes wf: "wf_graph g"
  shows "induced_prefix (join_vertex g vs) (length g) = g"
proof (rule nth_equalityI)
  show "length (induced_prefix (join_vertex g vs) (length g)) = length g"
    by (simp add: length_induced_prefix length_join_vertex)
next
  fix u assume "u < length (induced_prefix (join_vertex g vs) (length g))"
  then have u: "u < length g" by (simp add: length_induced_prefix length_join_vertex)
  have all: "\<forall>x \<in> set (g ! u). x < length g" using wf_graphD(3) [OF wf u] by blast
  then have f: "filter (\<lambda>x. x < length g) (g ! u) = g ! u" by (simp add: filter_id_conv)
  have "induced_prefix (join_vertex g vs) (length g) ! u =
      filter (\<lambda>x. x < length g) (join_vertex g vs ! u)"
    using u by (simp add: nth_induced_prefix length_join_vertex)
  also have "\<dots> = g ! u" using u f by (simp add: nth_join_vertex)
  finally show "induced_prefix (join_vertex g vs) (length g) ! u = g ! u" .
qed

section \<open>Isomorphism and counterexample graphs\<close>

lemma embedding_refl: "induced_embedding id g g"
  by (simp add: induced_embedding_def)

lemma isomorphic_refl: "isomorphic g g"
  unfolding isomorphic_def using embedding_refl [of g] by blast

lemma embedding_onto:
  assumes "induced_embedding \<phi> g h" "length g = length h"
  shows "\<phi> ` {0..<length g} = {0..<length g}"
proof (rule endo_inj_surj)
  show "finite {0..<length g}" by simp
  show "\<phi> ` {0..<length g} \<subseteq> {0..<length g}"
    using assms unfolding induced_embedding_def by auto
  show "inj_on \<phi> {0..<length g}" using assms(1) by (simp add: induced_embedding_def)
qed

lemma embedding_inverse:
  assumes emb: "induced_embedding \<phi> g h" and len: "length g = length h"
  shows "induced_embedding (inv_into {0..<length g} \<phi>) h g"
proof -
  let ?A = "{0..<length g}"
  let ?q = "inv_into ?A \<phi>"
  have onto: "\<phi> ` ?A = ?A" by (rule embedding_onto [OF emb len])
  have inj: "inj_on \<phi> ?A" using emb by (simp add: induced_embedding_def)
  have inv: "?q u \<in> ?A" "\<phi> (?q u) = u" if "u \<in> ?A" for u
  proof -
    have "u \<in> \<phi> ` ?A" using that onto by simp
    then show "?q u \<in> ?A" "\<phi> (?q u) = u"
      by (rule inv_into_into, rule f_inv_into_f)
  qed
  have adj: "v \<in> set (g ! u) \<longleftrightarrow> \<phi> v \<in> set (h ! \<phi> u)" if "u \<in> ?A" "v \<in> ?A" for u v
    using emb that unfolding induced_embedding_def by simp
  show ?thesis
    unfolding induced_embedding_def
  proof (intro conjI allI impI)
    have "inj_on ?q (\<phi> ` ?A)" by (rule inj_on_inv_into) simp
    then show "inj_on ?q {0..<length h}" using onto len by simp
  next
    fix u assume "u < length h"
    then have "u \<in> ?A" using len by simp
    from inv(1) [OF this] show "?q u < length g" by simp
  next
    fix u v assume "u < length h" "v < length h"
    then have u: "u \<in> ?A" and v: "v \<in> ?A" using len by simp_all
    have "?q v \<in> set (g ! ?q u) \<longleftrightarrow> \<phi> (?q v) \<in> set (h ! \<phi> (?q u))"
      by (rule adj [OF inv(1) [OF u] inv(1) [OF v]])
    then show "v \<in> set (h ! u) \<longleftrightarrow> ?q v \<in> set (g ! ?q u)"
      using inv(2) [OF u] inv(2) [OF v] by simp
  qed
qed

lemma isomorphic_sym: "isomorphic g h \<Longrightarrow> isomorphic h g"
  unfolding isomorphic_def using embedding_inverse by metis

lemma embedding_compose:
  assumes "induced_embedding \<phi> g h" "induced_embedding \<psi> h k"
  shows "induced_embedding (\<psi> \<circ> \<phi>) g k"
proof -
  have r: "\<phi> u < length h" if "u < length g" for u
    using assms(1) that by (simp add: induced_embedding_def)
  show ?thesis
    unfolding induced_embedding_def
  proof (intro conjI allI impI)
    have "inj_on \<phi> {0..<length g}" using assms(1) by (simp add: induced_embedding_def)
    moreover have "inj_on \<psi> (\<phi> ` {0..<length g})"
    proof (rule inj_on_subset)
      show "inj_on \<psi> {0..<length h}" using assms(2) by (simp add: induced_embedding_def)
      show "\<phi> ` {0..<length g} \<subseteq> {0..<length h}" using r by auto
    qed
    ultimately show "inj_on (\<psi> \<circ> \<phi>) {0..<length g}" by (rule comp_inj_on)
  next
    fix u assume "u < length g"
    then show "(\<psi> \<circ> \<phi>) u < length k"
      using r assms(2) by (simp add: induced_embedding_def)
  next
    fix u v assume uv: "u < length g" "v < length g"
    have "v \<in> set (g ! u) \<longleftrightarrow> \<phi> v \<in> set (h ! \<phi> u)"
      using assms(1) uv by (simp add: induced_embedding_def)
    also have "\<dots> \<longleftrightarrow> \<psi> (\<phi> v) \<in> set (k ! \<psi> (\<phi> u))"
      using assms(2) r [OF uv(1)] r [OF uv(2)] by (simp add: induced_embedding_def)
    finally show "v \<in> set (g ! u) \<longleftrightarrow> (\<psi> \<circ> \<phi>) v \<in> set (k ! (\<psi> \<circ> \<phi>) u)" by simp
  qed
qed

lemma isomorphic_trans: "isomorphic g h \<Longrightarrow> isomorphic h k \<Longrightarrow> isomorphic g k"
  unfolding isomorphic_def using embedding_compose by (metis (no_types))

lemma contains_fset_embedding:
  assumes ih: "induced_hereditary f" and wf: "wf_graph h" "wf_graph g"
    and emb: "induced_embedding \<phi> h g" and c: "contains_fset f b h"
  shows "contains_fset f b g"
proof -
  from c obtain s where s: "vertex_subset h s" "int (length s) = b" "f h s = Inr True"
    unfolding contains_fset_def by blast
  have "f g (sorted_list_of_set (\<phi> ` set s)) = Inr True"
    using ih wf emb s(1,3) unfolding induced_hereditary_def by blast
  then have "f g (image_list \<phi> s) = Inr True" by (simp add: image_list_def)
  moreover have "vertex_subset g (image_list \<phi> s)" by (rule vertex_subset_image [OF emb s(1)])
  moreover have "int (length (image_list \<phi> s)) = b"
    using length_image_list [OF emb s(1)] s(2) by simp
  ultimately show ?thesis unfolding contains_fset_def by blast
qed

lemma counterexample_isomorphic:
  assumes ih: "induced_hereditary f1" "induced_hereditary f2"
    and ce: "counterexample f1 f2 b1 b2 g" and iso: "isomorphic g h" and wf: "wf_graph h"
  shows "counterexample f1 f2 b1 b2 h"
proof -
  from isomorphic_sym [OF iso] obtain \<psi> where \<psi>: "induced_embedding \<psi> h g"
    unfolding isomorphic_def by blast
  from ce have wfg: "wf_graph g" and n1: "\<not> contains_fset f1 b1 g"
    and n2: "\<not> contains_fset f2 b2 g" by (simp_all add: counterexample_def)
  have "\<not> contains_fset f1 b1 h"
    using contains_fset_embedding [OF ih(1) wf wfg \<psi>] n1 by blast
  moreover have "\<not> contains_fset f2 b2 h"
    using contains_fset_embedding [OF ih(2) wf wfg \<psi>] n2 by blast
  ultimately show ?thesis using wf by (simp add: counterexample_def)
qed

lemma counterexample_prefix:
  assumes ih: "induced_hereditary f1" "induced_hereditary f2"
    and ce: "counterexample f1 f2 b1 b2 g" and m: "m \<le> length g"
  shows "counterexample f1 f2 b1 b2 (induced_prefix g m)"
proof -
  from ce have wfg: "wf_graph g" and n1: "\<not> contains_fset f1 b1 g"
    and n2: "\<not> contains_fset f2 b2 g" by (simp_all add: counterexample_def)
  note wfp = wf_induced_prefix [OF wfg m]
  note emb = embedding_induced_prefix [OF m]
  have "\<not> contains_fset f1 b1 (induced_prefix g m)"
    using contains_fset_embedding [OF ih(1) wfp wfg emb] n1 by blast
  moreover have "\<not> contains_fset f2 b2 (induced_prefix g m)"
    using contains_fset_embedding [OF ih(2) wfp wfg emb] n2 by blast
  ultimately show ?thesis using wfp by (simp add: counterexample_def)
qed

lemma has_fset_contains:
  assumes "returns_bool f g"
  shows "has_fset f b g = Inr (contains_fset f b g)"
proof (cases "0 \<le> b \<and> b \<le> int (length g)")
  case True
  then show ?thesis using has_fset_total [OF assms] by (simp add: contains_fset_def)
next
  case False
  have "\<not> contains_fset f b g"
  proof
    assume "contains_fset f b g"
    then obtain s where "vertex_subset g s" "int (length s) = b"
      unfolding contains_fset_def by blast
    then show False using False vertex_subset_length [of g s] by auto
  qed
  then show ?thesis using False by (auto simp: has_fset_def)
qed

lemma passes_has_fset:
  assumes "returns_bool f1 g" "returns_bool f2 g"
  shows "passes has_fset f1 f2 b1 b2 g =
    Inr (\<not> contains_fset f1 b1 g \<and> \<not> contains_fset f2 b2 g)"
  by (simp add: passes_def has_fset_contains [OF assms(1)] has_fset_contains [OF assms(2)])

lemma has_fset_with_last_contains:
  assumes ih: "induced_hereditary f" and wf: "wf_graph g" and n: "1 \<le> length g"
    and rb: "returns_bool f g"
    and par: "\<not> contains_fset f b (induced_prefix g (length g - 1))"
    and rbp: "returns_bool f (induced_prefix g (length g - 1))"
  shows "has_fset_with_last f b g = Inr (contains_fset f b g)"
proof -
  have p: "has_fset f b (induced_prefix g (length g - 1)) = Inr False"
    using has_fset_contains [OF rbp] par by simp
  have iff: "has_fset f b g = Inr True \<longleftrightarrow> has_fset_with_last f b g = Inr True"
    using with_last_sound [OF rb] with_last_complete [OF ih wf n rb p] by blast
  have total: "\<exists>t. has_fset_with_last f b g = Inr t"
  proof (cases "1 \<le> b \<and> b \<le> int (length g)")
    case True
    then show ?thesis using has_fset_with_last_total [OF rb] by blast
  next
    case False
    then show ?thesis by (auto simp: has_fset_with_last_def)
  qed
  then obtain t where t: "has_fset_with_last f b g = Inr t" by blast
  have "t \<longleftrightarrow> contains_fset f b g"
    using iff t has_fset_contains [OF rb, of b] by auto
  then show ?thesis using t by simp
qed

section \<open>One level of the search\<close>

lemma passes_with_last_join:
  assumes ih: "induced_hereditary f1" "induced_hereditary f2"
    and pr: "is_predicate f1" "is_predicate f2"
    and ce: "counterexample f1 f2 b1 b2 oldg"
    and vs: "distinct vs" "\<forall>v \<in> set vs. v < length oldg"
  shows "passes has_fset_with_last f1 f2 b1 b2 (join_vertex oldg vs) =
    Inr (counterexample f1 f2 b1 b2 (join_vertex oldg vs))"
proof -
  let ?g = "join_vertex oldg vs"
  from ce have wfo: "wf_graph oldg" and n1: "\<not> contains_fset f1 b1 oldg"
    and n2: "\<not> contains_fset f2 b2 oldg" by (simp_all add: counterexample_def)
  have wf: "wf_graph ?g" by (rule wf_join_vertex [OF wfo vs])
  have len: "1 \<le> length ?g" by (simp add: length_join_vertex)
  have pre: "induced_prefix ?g (length ?g - 1) = oldg"
    using induced_prefix_join_vertex [OF wfo, of vs] by (simp add: length_join_vertex)
  have rb: "returns_bool f1 ?g" "returns_bool f2 ?g" "returns_bool f1 oldg" "returns_bool f2 oldg"
    using pr wf wfo unfolding is_predicate_def by blast+
  have h1: "has_fset_with_last f1 b1 ?g = Inr (contains_fset f1 b1 ?g)"
    by (rule has_fset_with_last_contains [OF ih(1) wf len rb(1)])
      (use pre n1 rb(3) in simp_all)
  have h2: "has_fset_with_last f2 b2 ?g = Inr (contains_fset f2 b2 ?g)"
    by (rule has_fset_with_last_contains [OF ih(2) wf len rb(2)])
      (use pre n2 rb(4) in simp_all)
  show ?thesis using wf by (simp add: passes_def h1 h2 counterexample_def)
qed

lemma extensions_join:
  assumes ih: "induced_hereditary f1" "induced_hereditary f2"
    and pr: "is_predicate f1" "is_predicate f2"
    and ce: "counterexample f1 f2 b1 b2 oldg" and n: "length oldg + 1 = n"
  shows "\<forall>vs \<in> set vsets. distinct vs \<and> (\<forall>v \<in> set vs. v < length oldg) \<Longrightarrow>
    extensions (passes has_fset_with_last f1 f2 b1 b2) oldg vsets n =
      Inr (filter (counterexample f1 f2 b1 b2) (map (join_vertex oldg) vsets))"
proof (induction vsets)
  case Nil
  then show ?case by simp
next
  case (Cons vs vsets)
  then have vs: "distinct vs" "\<forall>v \<in> set vs. v < length oldg"
    and rest: "\<forall>vs \<in> set vsets. distinct vs \<and> (\<forall>v \<in> set vs. v < length oldg)"
    by simp_all
  have c: "candidate oldg vs n = Inr (join_vertex oldg vs)"
    by (rule candidate_join [OF n vs])
  have p: "passes has_fset_with_last f1 f2 b1 b2 (join_vertex oldg vs) =
      Inr (counterexample f1 f2 b1 b2 (join_vertex oldg vs))"
    by (rule passes_with_last_join [OF ih pr ce vs])
  show ?case using c p Cons.IH [OF rest] by simp
qed

text \<open>The candidates that the helper yields for the graphs \<open>old\<close> of order \<open>m\<close>.\<close>

lemma big_list_join:
  assumes ih: "induced_hereditary f1" "induced_hereditary f2"
    and pr: "is_predicate f1" "is_predicate f2"
    and ps: "\<forall>vs \<in> set (powerset lib [0..<m]). distinct vs \<and> (\<forall>v \<in> set vs. v < m)"
  shows "\<forall>oldg \<in> set old. length oldg = m \<and> counterexample f1 f2 b1 b2 oldg \<Longrightarrow>
    counterexamples_up_big_list lib f1 f2 (m + 1) b1 b2 old =
      Inr (concat (map (\<lambda>oldg. filter (counterexample f1 f2 b1 b2)
             (map (join_vertex oldg) (powerset lib [0..<m]))) old))"
proof (induction old)
  case Nil
  then show ?case by simp
next
  case (Cons oldg old)
  then have o: "length oldg = m" "counterexample f1 f2 b1 b2 oldg"
    and rest: "\<forall>oldg \<in> set old. length oldg = m \<and> counterexample f1 f2 b1 b2 oldg"
    by simp_all
  have "\<forall>vs \<in> set (powerset lib [0..<m]). distinct vs \<and> (\<forall>v \<in> set vs. v < length oldg)"
    using ps o(1) by simp
  from extensions_join [OF ih pr o(2) _ this, of "m + 1"]
  have e: "extensions (passes has_fset_with_last f1 f2 b1 b2) oldg (powerset lib [0..<m]) (m + 1) =
      Inr (filter (counterexample f1 f2 b1 b2) (map (join_vertex oldg) (powerset lib [0..<m])))"
    using o(1) by simp
  show ?case using e Cons.IH [OF rest] by simp
qed

lemma big_list_members:
  "c \<in> set (concat (map (\<lambda>oldg. filter (counterexample f1 f2 b1 b2)
       (map (join_vertex oldg) vsets)) old)) \<longleftrightarrow>
   (\<exists>oldg \<in> set old. \<exists>vs \<in> set vsets. c = join_vertex oldg vs \<and>
      counterexample f1 f2 b1 b2 c)"
  by auto

section \<open>Every counterexample graph extends a counterexample graph\<close>

lemma embedding_lift:
  assumes wfG: "wf_graph G" and lenG: "length G = m + 1"
    and wfr: "wf_graph r" and lenr: "length r = m"
    and emb: "induced_embedding \<phi> (induced_prefix G m) r"
  shows "induced_embedding (\<phi>(m := m)) G (join_vertex r (image_list \<phi> (G ! m)))"
proof -
  let ?vs = "image_list \<phi> (G ! m)"
  let ?H = "join_vertex r ?vs"
  let ?f = "\<phi>(m := m)"
  have mG: "m \<le> length G" "m < length G" using lenG by simp_all
  have lenp: "length (induced_prefix G m) = m" using mG(1) by (rule length_induced_prefix)
  have inj: "inj_on \<phi> {0..<m}" and rng: "\<And>u. u < m \<Longrightarrow> \<phi> u < m"
    and adjp: "\<And>u v. u < m \<Longrightarrow> v < m \<Longrightarrow>
        v \<in> set (induced_prefix G m ! u) \<longleftrightarrow> \<phi> v \<in> set (r ! \<phi> u)"
    using emb lenp lenr unfolding induced_embedding_def by simp_all
  have adj: "v \<in> set (G ! u) \<longleftrightarrow> \<phi> v \<in> set (r ! \<phi> u)" if "u < m" "v < m" for u v
    using adjp [OF that] that mG(1) by (simp add: nth_induced_prefix)
  have N: "x < m" if "x \<in> set (G ! m)" for x
  proof -
    have "x < length G" "x \<noteq> m"
      using wf_graphD(3) [OF wfG mG(2) that] wf_graphD(2) [OF wfG mG(2)] that by auto
    then show ?thesis using lenG by simp
  qed
  have setvs: "set ?vs = \<phi> ` set (G ! m)" by (rule set_image_list)
  have vs_lt: "x < m" if "x \<in> set ?vs" for x using that setvs N rng by auto
  have in_vs: "\<phi> u \<in> set ?vs \<longleftrightarrow> u \<in> set (G ! m)" if "u < m" for u
  proof
    assume "\<phi> u \<in> set ?vs"
    then obtain x where x: "x \<in> set (G ! m)" "\<phi> u = \<phi> x" using setvs by auto
    then have "u = x" using inj that N [OF x(1)] by (auto simp: inj_on_def)
    then show "u \<in> set (G ! m)" using x(1) by simp
  next
    assume "u \<in> set (G ! m)"
    then show "\<phi> u \<in> set ?vs" using setvs by blast
  qed
  have r_lt: "x < m" if "u < m" "x \<in> set (r ! u)" for u x
    using wf_graphD(3) [OF wfr _ that(2)] that(1) lenr by simp
  have Hm: "?H ! m = ?vs" using nth_join_vertex_last [of r ?vs] lenr by simp
  have Hu: "set (?H ! u) = set (r ! u) \<union> (if u \<in> set ?vs then {m} else {})" if "u < m" for u
    using that lenr by (simp add: nth_join_vertex)
  show ?thesis
    unfolding induced_embedding_def
  proof (intro conjI allI impI)
    show "inj_on ?f {0..<length G}"
    proof (rule inj_onI)
      fix x y assume "x \<in> {0..<length G}" "y \<in> {0..<length G}" "?f x = ?f y"
      then have xy: "x \<le> m" "y \<le> m" and eq: "?f x = ?f y" using lenG by simp_all
      show "x = y"
      proof (cases "x = m \<or> y = m")
        case True
        then show ?thesis using eq xy rng [of x] rng [of y]
          by (auto simp: fun_upd_def split: if_splits)
      next
        case False
        then have "x < m" "y < m" using xy by simp_all
        then show ?thesis using eq inj False by (auto simp: inj_on_def)
      qed
    qed
  next
    fix u assume "u < length G"
    then show "?f u < length ?H"
      using rng [of u] lenG lenr by (auto simp: length_join_vertex)
  next
    fix u v assume "u < length G" "v < length G"
    then have uv: "u \<le> m" "v \<le> m" using lenG by simp_all
    show "v \<in> set (G ! u) \<longleftrightarrow> ?f v \<in> set (?H ! ?f u)"
    proof (cases "u = m")
      case um: True
      show ?thesis
      proof (cases "v = m")
        case True
        have "m \<notin> set (G ! m)" by (rule wf_graphD(2) [OF wfG mG(2)])
        moreover have "m \<notin> set ?vs" using vs_lt by blast
        ultimately show ?thesis using um True Hm by simp
      next
        case False
        then have v: "v < m" using uv by simp
        show ?thesis using um False Hm in_vs [OF v] by simp
      qed
    next
      case um: False
      then have u: "u < m" using uv by simp
      have fu: "\<phi> u < m" by (rule rng [OF u])
      show ?thesis
      proof (cases "v = m")
        case True
        have "m \<in> set (G ! u) \<longleftrightarrow> u \<in> set (G ! m)"
          using wf_graphD(4) [OF wfG mG(2), of u] wf_graphD(4) [OF wfG _, of u m] u lenG
          by auto
        moreover have "m \<notin> set (r ! \<phi> u)" using r_lt [OF fu] by blast
        ultimately show ?thesis using um True Hu [OF fu] in_vs [OF u] by simp
      next
        case False
        then have v: "v < m" using uv by simp
        have "\<phi> v \<noteq> m" using rng [OF v] by simp
        then show ?thesis using um False Hu [OF fu] adj [OF u v] by simp
      qed
    qed
  qed
qed

lemma counterexample_extends:
  assumes ih: "induced_hereditary f1" "induced_hereditary f2"
    and reps: "representatives old (counterexamples_of_order f1 f2 b1 b2 m)"
    and G: "G \<in> counterexamples_of_order f1 f2 b1 b2 (m + 1)"
  shows "\<exists>oldg \<in> set old. \<exists>vs. sorted_wrt (<) vs \<and> (\<forall>v \<in> set vs. v < m) \<and>
      counterexample f1 f2 b1 b2 (join_vertex oldg vs) \<and>
      isomorphic G (join_vertex oldg vs)"
proof -
  from G have lenG: "length G = m + 1" and ceG: "counterexample f1 f2 b1 b2 G"
    by (simp_all add: counterexamples_of_order_def)
  then have wfG: "wf_graph G" by (simp add: counterexample_def)
  let ?p = "induced_prefix G m"
  have mG: "m \<le> length G" using lenG by simp
  have "counterexample f1 f2 b1 b2 ?p" by (rule counterexample_prefix [OF ih ceG mG])
  then have "?p \<in> counterexamples_of_order f1 f2 b1 b2 m"
    using mG by (simp add: counterexamples_of_order_def length_induced_prefix)
  then obtain r where r: "r \<in> set old" "isomorphic ?p r"
    using reps unfolding representatives_def by blast
  have "r \<in> counterexamples_of_order f1 f2 b1 b2 m"
    using reps r(1) unfolding representatives_def by blast
  then have lenr: "length r = m" and cer: "counterexample f1 f2 b1 b2 r"
    by (simp_all add: counterexamples_of_order_def)
  then have wfr: "wf_graph r" by (simp add: counterexample_def)
  from r(2) obtain \<phi> where \<phi>: "induced_embedding \<phi> ?p r"
    unfolding isomorphic_def by blast
  let ?vs = "image_list \<phi> (G ! m)"
  let ?H = "join_vertex r ?vs"
  have emb: "induced_embedding (\<phi>(m := m)) G ?H"
    by (rule embedding_lift [OF wfG lenG wfr lenr \<phi>])
  have lenp: "length ?p = m" using mG by (rule length_induced_prefix)
  have rng: "\<phi> u < m" if "u < m" for u
    using \<phi> that lenp lenr unfolding induced_embedding_def by simp
  have N: "x < m" if "x \<in> set (G ! m)" for x
  proof -
    have "m < length G" using lenG by simp
    then have "x < length G" "x \<noteq> m"
      using wf_graphD(3) [OF wfG _ that] wf_graphD(2) [OF wfG, of m] that by auto
    then show ?thesis using lenG by simp
  qed
  have srt: "sorted_wrt (<) ?vs" by (rule sorted_image_list)
  have vs_lt: "\<forall>v \<in> set ?vs. v < m" using N rng by (auto simp: set_image_list)
  have d: "distinct ?vs" using srt by (simp add: strict_sorted_iff)
  have wfH: "wf_graph ?H" using wf_join_vertex [OF wfr d] vs_lt lenr by simp
  have iso: "isomorphic G ?H"
    unfolding isomorphic_def using emb lenG lenr by (auto simp: length_join_vertex)
  have "counterexample f1 f2 b1 b2 ?H"
    by (rule counterexample_isomorphic [OF ih ceG iso wfH])
  then show ?thesis using r(1) srt vs_lt iso by blast
qed

section \<open>Correctness of the search for extremal graphs\<close>

lemma representatives_empty: "representatives [] A \<longleftrightarrow> A = {}"
  by (auto simp: representatives_def)

lemma representatives_nonempty: "representatives rs A \<Longrightarrow> rs \<noteq> [] \<Longrightarrow> A \<noteq> {}"
  by (cases rs) (auto simp: representatives_def)

lemma wf_graph_empty: "wf_graph []"
  by (simp add: wf_graph_def)

lemma counterexamples_zero_reps:
  assumes lib: "isograph_contract lib" and pr: "is_predicate f1" "is_predicate f2"
  shows "\<exists>gs. counterexamples_zero lib f1 f2 b1 b2 = Inr gs \<and>
    representatives gs (counterexamples_of_order f1 f2 b1 b2 0)"
proof -
  have g0: "graphs lib 0 = [[]]" using lib by (simp add: isograph_contract_def)
  have rb: "returns_bool f1 []" "returns_bool f2 []"
    using pr wf_graph_empty unfolding is_predicate_def by blast+
  have p: "passes has_fset f1 f2 b1 b2 [] = Inr (counterexample f1 f2 b1 b2 [])"
    by (simp add: passes_has_fset [OF rb] counterexample_def wf_graph_empty)
  have z: "counterexamples_zero lib f1 f2 b1 b2 =
      Inr (if counterexample f1 f2 b1 b2 [] then [[]] else [])"
    by (simp add: counterexamples_zero_def g0 p)
  have ce: "counterexamples_of_order f1 f2 b1 b2 0 =
      (if counterexample f1 f2 b1 b2 [] then {[]} else {})"
    by (auto simp: counterexamples_of_order_def)
  have "representatives (if counterexample f1 f2 b1 b2 [] then [[]] else [])
      (counterexamples_of_order f1 f2 b1 b2 0)"
    unfolding ce by (simp add: representatives_def isomorphic_refl)
  then show ?thesis using z by blast
qed

lemma counterexamples_up_reps:
  assumes lib: "isograph_contract lib"
    and ih: "induced_hereditary f1" "induced_hereditary f2"
    and pr: "is_predicate f1" "is_predicate f2"
    and reps: "representatives old (counterexamples_of_order f1 f2 b1 b2 m)"
  shows "\<exists>gs. counterexamples_up lib f1 f2 b1 b2 (m + 1) old = Inr gs \<and>
    representatives gs (counterexamples_of_order f1 f2 b1 b2 (m + 1))"
proof -
  let ?CE = "counterexamples_of_order f1 f2 b1 b2"
  let ?cs = "concat (map (\<lambda>oldg. filter (counterexample f1 f2 b1 b2)
      (map (join_vertex oldg) (powerset lib [0..<m]))) old)"
  have pws: "set (powerset lib [0..<m]) = {vs. sorted_wrt (<) vs \<and> (\<forall>v \<in> set vs. v < m)}"
    using lib unfolding isograph_contract_def by blast
  have ps: "\<forall>vs \<in> set (powerset lib [0..<m]). distinct vs \<and> (\<forall>v \<in> set vs. v < m)"
    unfolding pws by (simp add: strict_sorted_iff)
  have old: "\<forall>oldg \<in> set old. length oldg = m \<and> counterexample f1 f2 b1 b2 oldg"
    using reps unfolding representatives_def counterexamples_of_order_def by blast
  have big: "counterexamples_up_big_list lib f1 f2 (m + 1) b1 b2 old = Inr ?cs"
    by (rule big_list_join [OF ih pr ps old])
  have mem: "c \<in> set ?cs \<longleftrightarrow>
      (\<exists>oldg \<in> set old. \<exists>vs \<in> set (powerset lib [0..<m]). c = join_vertex oldg vs \<and>
         counterexample f1 f2 b1 b2 c)" for c
    by (rule big_list_members)
  have sub: "set ?cs \<subseteq> ?CE (m + 1)"
  proof
    fix c assume "c \<in> set ?cs"
    then obtain oldg vs where "oldg \<in> set old" "c = join_vertex oldg vs"
      "counterexample f1 f2 b1 b2 c" unfolding mem by blast
    then show "c \<in> ?CE (m + 1)"
      using old by (simp add: counterexamples_of_order_def length_join_vertex)
  qed
  then have wf: "\<forall>g \<in> set ?cs. wf_graph g"
    by (auto simp: counterexamples_of_order_def counterexample_def)
  have U: "representatives (unique_iso lib ?cs) (set ?cs)"
    using lib wf unfolding isograph_contract_def by blast
  have cover: "\<exists>c \<in> set ?cs. isomorphic G c" if "G \<in> ?CE (m + 1)" for G
  proof -
    from counterexample_extends [OF ih reps that] obtain oldg vs where
      o: "oldg \<in> set old" and vs: "sorted_wrt (<) vs" "\<forall>v \<in> set vs. v < m"
      and ce: "counterexample f1 f2 b1 b2 (join_vertex oldg vs)"
      and iso: "isomorphic G (join_vertex oldg vs)" by blast
    have "vs \<in> set (powerset lib [0..<m])" unfolding pws using vs by simp
    then have "join_vertex oldg vs \<in> set ?cs" unfolding mem using o ce by blast
    then show ?thesis using iso by blast
  qed
  have "representatives (unique_iso lib ?cs) (?CE (m + 1))"
    unfolding representatives_def
  proof (intro conjI ballI)
    show "set (unique_iso lib ?cs) \<subseteq> ?CE (m + 1)"
      using U sub unfolding representatives_def by blast
  next
    fix G assume "G \<in> ?CE (m + 1)"
    from cover [OF this] obtain c where c: "c \<in> set ?cs" "isomorphic G c" by blast
    from U c(1) obtain r where r: "r \<in> set (unique_iso lib ?cs)" "isomorphic c r"
      unfolding representatives_def by blast
    have "isomorphic G r" by (rule isomorphic_trans [OF c(2) r(2)])
    then show "\<exists>r \<in> set (unique_iso lib ?cs). isomorphic G r" using r(1) by blast
  next
    show "distinct (unique_iso lib ?cs)" using U unfolding representatives_def by blast
  next
    fix r r' assume "r \<in> set (unique_iso lib ?cs)" "r' \<in> set (unique_iso lib ?cs)"
    then show "isomorphic r r' \<longrightarrow> r = r'" using U unfolding representatives_def by blast
  qed
  then show ?thesis using big by (simp add: counterexamples_up_def)
qed

text \<open>What a returned result says: the pair \<open>(n, gs)\<close> where counterexample graphs exist
  at the orders below \<open>n\<close> and not at \<open>n\<close>, and \<open>gs\<close> holds one representative of each
  isomorphism class of the counterexample graphs of order \<open>n - 1\<close>.\<close>

lemma extremals_loop_correct:
  assumes "extremals_loop lib f1 f2 b1 b2 n oldgs = Some r"
  shows "isograph_contract lib \<and> induced_hereditary f1 \<and> induced_hereditary f2 \<and>
     is_predicate f1 \<and> is_predicate f2 \<and> 1 \<le> n \<and> oldgs \<noteq> [] \<and>
     representatives oldgs (counterexamples_of_order f1 f2 b1 b2 (n - 1)) \<and>
     (\<forall>m < n. counterexamples_of_order f1 f2 b1 b2 m \<noteq> {}) \<longrightarrow>
     (\<exists>n' gs. r = Inr (n', gs) \<and> 1 \<le> n' \<and>
        (\<forall>m < n'. counterexamples_of_order f1 f2 b1 b2 m \<noteq> {}) \<and>
        counterexamples_of_order f1 f2 b1 b2 n' = {} \<and>
        representatives gs (counterexamples_of_order f1 f2 b1 b2 (n' - 1)))"
proof (rule extremals_loop.raw_induct
    [where P = "\<lambda>lib f1 f2 b1 b2 n oldgs r.
       isograph_contract lib \<and> induced_hereditary f1 \<and> induced_hereditary f2 \<and>
       is_predicate f1 \<and> is_predicate f2 \<and> 1 \<le> n \<and> oldgs \<noteq> [] \<and>
       representatives oldgs (counterexamples_of_order f1 f2 b1 b2 (n - 1)) \<and>
       (\<forall>m < n. counterexamples_of_order f1 f2 b1 b2 m \<noteq> {}) \<longrightarrow>
       (\<exists>n' gs. r = Inr (n', gs) \<and> 1 \<le> n' \<and>
          (\<forall>m < n'. counterexamples_of_order f1 f2 b1 b2 m \<noteq> {}) \<and>
          counterexamples_of_order f1 f2 b1 b2 n' = {} \<and>
          representatives gs (counterexamples_of_order f1 f2 b1 b2 (n' - 1)))",
     OF _ assms])
  fix loop lib f1 f2 b1 b2 n oldgs r
  let ?CE = "counterexamples_of_order f1 f2 b1 b2"
  assume IH: "\<And>lib f1 f2 b1 b2 n oldgs r.
      loop lib f1 f2 b1 b2 n oldgs = Some r \<Longrightarrow>
      isograph_contract lib \<and> induced_hereditary f1 \<and> induced_hereditary f2 \<and>
      is_predicate f1 \<and> is_predicate f2 \<and> 1 \<le> n \<and> oldgs \<noteq> [] \<and>
      representatives oldgs (counterexamples_of_order f1 f2 b1 b2 (n - 1)) \<and>
      (\<forall>m < n. counterexamples_of_order f1 f2 b1 b2 m \<noteq> {}) \<longrightarrow>
      (\<exists>n' gs. r = Inr (n', gs) \<and> 1 \<le> n' \<and>
         (\<forall>m < n'. counterexamples_of_order f1 f2 b1 b2 m \<noteq> {}) \<and>
         counterexamples_of_order f1 f2 b1 b2 n' = {} \<and>
         representatives gs (counterexamples_of_order f1 f2 b1 b2 (n' - 1)))"
    and body: "(case counterexamples_up lib f1 f2 b1 b2 n oldgs of
        Inl e \<Rightarrow> Some (Inl e)
      | Inr gs \<Rightarrow>
          if length gs = 0 then Some (Inr (n, oldgs))
          else loop lib f1 f2 b1 b2 (n + 1) gs) = Some r"
  show "isograph_contract lib \<and> induced_hereditary f1 \<and> induced_hereditary f2 \<and>
      is_predicate f1 \<and> is_predicate f2 \<and> 1 \<le> n \<and> oldgs \<noteq> [] \<and>
      representatives oldgs (?CE (n - 1)) \<and> (\<forall>m < n. ?CE m \<noteq> {}) \<longrightarrow>
      (\<exists>n' gs. r = Inr (n', gs) \<and> 1 \<le> n' \<and> (\<forall>m < n'. ?CE m \<noteq> {}) \<and>
         ?CE n' = {} \<and> representatives gs (?CE (n' - 1)))"
  proof
    assume a: "isograph_contract lib \<and> induced_hereditary f1 \<and> induced_hereditary f2 \<and>
      is_predicate f1 \<and> is_predicate f2 \<and> 1 \<le> n \<and> oldgs \<noteq> [] \<and>
      representatives oldgs (?CE (n - 1)) \<and> (\<forall>m < n. ?CE m \<noteq> {})"
    then have lib: "isograph_contract lib"
      and ih: "induced_hereditary f1" "induced_hereditary f2"
      and pr: "is_predicate f1" "is_predicate f2"
      and n1: "1 \<le> n" and ne: "oldgs \<noteq> []"
      and reps: "representatives oldgs (?CE (n - 1))"
      and below: "\<forall>m < n. ?CE m \<noteq> {}" by blast+
    from counterexamples_up_reps [OF lib ih pr reps, of] n1 obtain gs where
      up: "counterexamples_up lib f1 f2 b1 b2 n oldgs = Inr gs"
      and rg: "representatives gs (?CE n)" by auto
    show "\<exists>n' gs. r = Inr (n', gs) \<and> 1 \<le> n' \<and> (\<forall>m < n'. ?CE m \<noteq> {}) \<and>
        ?CE n' = {} \<and> representatives gs (?CE (n' - 1))"
    proof (cases "length gs = 0")
      case True
      then have "r = Inr (n, oldgs)" using body up by simp
      moreover have "?CE n = {}" using rg True by (simp add: representatives_empty)
      ultimately show ?thesis using n1 below reps by blast
    next
      case False
      then have call: "loop lib f1 f2 b1 b2 (n + 1) gs = Some r" using body up by simp
      have gne: "gs \<noteq> []" using False by simp
      have "?CE n \<noteq> {}" by (rule representatives_nonempty [OF rg gne])
      then have below': "\<forall>m < n + 1. ?CE m \<noteq> {}" using below by (auto simp: less_Suc_eq)
      have "representatives gs (?CE (n + 1 - 1))" using rg by simp
      then show ?thesis using IH [OF call] lib ih pr gne below' by simp
    qed
  qed
qed

section \<open>The model of isograph meets the contracts\<close>

lemma sorted_below_length:
  assumes "sorted_wrt (<) (ys :: nat list)" "\<forall>v \<in> set ys. v < m"
  shows "length ys \<le> m"
proof -
  have "distinct ys" using assms(1) by (simp add: strict_sorted_iff)
  then have "length ys = card (set ys)" by (simp add: distinct_card)
  also have "\<dots> \<le> card {0..<m}" using assms(2) by (intro card_mono) auto
  finally show ?thesis by simp
qed

lemma model_powerset_contract:
  "set (model_powerset [0..<m]) = {vs. sorted_wrt (<) vs \<and> (\<forall>v \<in> set vs. v < m)}"
proof -
  have s: "sorted_wrt (<) [0..<m]" by (simp add: sorted_wrt_upt)
  have "set (model_powerset [0..<m]) =
      (\<Union>r \<in> {0..<m + 1}. set (combinations [0..<m] r))"
    by (simp add: model_powerset_def del: upt_Suc)
  also have "\<dots> = (\<Union>r \<in> {0..<m + 1}.
      {ys. sorted_wrt (<) ys \<and> set ys \<subseteq> set [0..<m] \<and> length ys = r})"
    by (simp only: combinations_set [OF s])
  also have "\<dots> = {vs. sorted_wrt (<) vs \<and> (\<forall>v \<in> set vs. v < m)}"
  proof (rule set_eqI)
    fix vs :: "nat list"
    have "length vs < m + 1" if "sorted_wrt (<) vs" "\<forall>v \<in> set vs. v < m"
      using sorted_below_length [OF that] by simp
    then show "vs \<in> (\<Union>r \<in> {0..<m + 1}.
        {ys. sorted_wrt (<) ys \<and> set ys \<subseteq> set [0..<m] \<and> length ys = r}) \<longleftrightarrow>
      vs \<in> {vs. sorted_wrt (<) vs \<and> (\<forall>v \<in> set vs. v < m)}"
      by auto
  qed
  finally show ?thesis .
qed

lemma model_isomorphic_iff: "model_isomorphic g h \<longleftrightarrow> isomorphic g h"
proof
  assume "model_isomorphic g h"
  then obtain p where len: "length g = length h"
    and p: "length p = length g" "set p \<subseteq> {0..<length g}" "distinct p"
    and rel: "relabels p g h"
    by (auto simp: model_isomorphic_def list_ex_iff set_n_lists)
  have "induced_embedding (\<lambda>v. p ! v) g h"
    unfolding induced_embedding_def
  proof (intro conjI allI impI)
    show "inj_on (\<lambda>v. p ! v) {0..<length g}"
      using p(1,3) by (auto simp: inj_on_def nth_eq_iff_index_eq)
  next
    fix u assume "u < length g"
    then have "p ! u \<in> set p" using p(1) by simp
    then show "p ! u < length h" using p(2) len by auto
  next
    fix u v assume "u < length g" "v < length g"
    then show "v \<in> set (g ! u) \<longleftrightarrow> p ! v \<in> set (h ! (p ! u))"
      using rel by (simp add: relabels_def)
  qed
  then show "isomorphic g h" using len unfolding isomorphic_def by blast
next
  assume "isomorphic g h"
  then obtain \<phi> where len: "length g = length h" and emb: "induced_embedding \<phi> g h"
    unfolding isomorphic_def by blast
  let ?p = "map \<phi> [0..<length g]"
  have "length ?p = length g" by simp
  moreover have "set ?p \<subseteq> {0..<length g}"
    using emb len unfolding induced_embedding_def by auto
  moreover have "distinct ?p"
    using emb unfolding induced_embedding_def by (simp add: distinct_map)
  moreover have "relabels ?p g h"
    using emb unfolding induced_embedding_def relabels_def by simp
  ultimately have "\<exists>p \<in> set (filter distinct (List.n_lists (length g) [0..<length g])).
      relabels p g h"
    by (intro bexI [of _ ?p]) (simp_all add: set_n_lists)
  then show "model_isomorphic g h" using len by (simp add: model_isomorphic_def list_ex_iff)
qed

lemma model_unique_iso_reps: "representatives (model_unique_iso gs) (set gs)"
proof (induction gs rule: model_unique_iso.induct)
  case 1
  then show ?case by (simp add: representatives_def)
next
  case (2 g gs)
  let ?rest = "filter (\<lambda>h. \<not> model_isomorphic g h) gs"
  let ?U = "model_unique_iso ?rest"
  from 2 have sub: "set ?U \<subseteq> set ?rest"
    and cov: "\<forall>h \<in> set ?rest. \<exists>r \<in> set ?U. isomorphic h r"
    and dis: "distinct ?U"
    and pw: "\<forall>r \<in> set ?U. \<forall>r' \<in> set ?U. isomorphic r r' \<longrightarrow> r = r'"
    unfolding representatives_def by blast+
  have noiso: "\<not> isomorphic g r" if "r \<in> set ?U" for r
    using sub that by (auto simp: model_isomorphic_iff)
  have gU: "g \<notin> set ?U" using noiso isomorphic_refl by blast
  show ?case
    unfolding representatives_def
  proof (intro conjI ballI)
    show "set (model_unique_iso (g # gs)) \<subseteq> set (g # gs)" using sub by auto
  next
    fix h assume "h \<in> set (g # gs)"
    then consider "h = g" | "h \<in> set gs" "model_isomorphic g h" | "h \<in> set ?rest" by auto
    then show "\<exists>r \<in> set (model_unique_iso (g # gs)). isomorphic h r"
    proof cases
      case 1
      then show ?thesis using isomorphic_refl by auto
    next
      case 2
      then have "isomorphic h g" by (simp add: model_isomorphic_iff isomorphic_sym)
      then show ?thesis by auto
    next
      case 3
      then show ?thesis using cov by auto
    qed
  next
    show "distinct (model_unique_iso (g # gs))" using dis gU by simp
  next
    fix r r' assume "r \<in> set (model_unique_iso (g # gs))" "r' \<in> set (model_unique_iso (g # gs))"
    then have r: "r = g \<or> r \<in> set ?U" and r': "r' = g \<or> r' \<in> set ?U" by simp_all
    show "isomorphic r r' \<longrightarrow> r = r'"
    proof
      assume i: "isomorphic r r'"
      show "r = r'"
      proof (cases "r = g")
        case True
        then show ?thesis using i r' noiso by blast
      next
        case False
        then have rU: "r \<in> set ?U" using r by simp
        show ?thesis
        proof (cases "r' = g")
          case True
          then have "isomorphic g r" using i by (simp add: isomorphic_sym)
          then show ?thesis using noiso [OF rU] by simp
        next
          case False
          then show ?thesis using pw rU r' i by blast
        qed
      qed
    qed
  qed
qed

lemma model_contract: "isograph_contract model_isograph"
  unfolding isograph_contract_def
proof (intro conjI allI impI)
  show "graphs model_isograph 0 = [[]]" by (simp add: model_isograph_def)
next
  fix m
  show "set (powerset model_isograph [0..<m]) =
      {vs. sorted_wrt (<) vs \<and> (\<forall>v \<in> set vs. v < m)}"
    using model_powerset_contract [of m] by (simp add: model_isograph_def)
next
  fix gs :: "graph list"
  show "representatives (unique_iso model_isograph gs) (set gs)"
    using model_unique_iso_reps [of gs] by (simp add: model_isograph_def)
qed

lemma is_predicate_is_independent: "is_predicate is_independent"
  by (simp add: is_predicate_def returns_bool_is_independent)

lemma is_predicate_is_clique: "is_predicate is_clique"
  by (simp add: is_predicate_def returns_bool_is_clique)

lemma extremals_result:
  assumes lib: "isograph_contract lib"
    and ih: "induced_hereditary f1" "induced_hereditary f2"
    and pr: "is_predicate f1" "is_predicate f2"
    and ex: "extremals lib f1 f2 b1 b2 = Some r"
  shows "\<exists>n gs. r = Inr (n, gs) \<and>
     (\<forall>m < n. counterexamples_of_order f1 f2 b1 b2 m \<noteq> {}) \<and>
     counterexamples_of_order f1 f2 b1 b2 n = {} \<and>
     (n = 0 \<longrightarrow> gs = []) \<and>
     (1 \<le> n \<longrightarrow> representatives gs (counterexamples_of_order f1 f2 b1 b2 (n - 1)))"
proof -
  let ?CE = "counterexamples_of_order f1 f2 b1 b2"
  from counterexamples_zero_reps [OF lib pr] obtain gs0 where
    z: "counterexamples_zero lib f1 f2 b1 b2 = Inr gs0"
    and r0: "representatives gs0 (?CE 0)" by blast
  show ?thesis
  proof (cases "length gs0 = 0")
    case True
    then have "r = Inr (0, [])" using ex z by (simp add: extremals_def)
    moreover have "?CE 0 = {}" using r0 True by (simp add: representatives_empty)
    ultimately show ?thesis by simp
  next
    case False
    then have call: "extremals_loop lib f1 f2 b1 b2 1 gs0 = Some r"
      using ex z by (simp add: extremals_def)
    have ne: "gs0 \<noteq> []" using False by simp
    have "?CE 0 \<noteq> {}" by (rule representatives_nonempty [OF r0 ne])
    then have below: "\<forall>m < 1. ?CE m \<noteq> {}" by simp
    have "representatives gs0 (?CE (1 - 1))" using r0 by simp
    with extremals_loop_correct [OF call] lib ih pr ne below
    obtain n gs where "r = Inr (n, gs)" "1 \<le> n" "\<forall>m < n. ?CE m \<noteq> {}" "?CE n = {}"
      "representatives gs (?CE (n - 1))" by blast
    then show ?thesis by auto
  qed
qed

text \<open>The loop returns once an order without counterexample graphs lies ahead: every
  level that is not empty brings the loop one order closer to it.\<close>

lemma extremals_loop_returns:
  assumes lib: "isograph_contract lib"
    and ih: "induced_hereditary f1" "induced_hereditary f2"
    and pr: "is_predicate f1" "is_predicate f2"
    and empty: "counterexamples_of_order f1 f2 b1 b2 N = {}"
  shows "n < N \<Longrightarrow> representatives oldgs (counterexamples_of_order f1 f2 b1 b2 n) \<Longrightarrow>
     \<exists>r. extremals_loop lib f1 f2 b1 b2 (n + 1) oldgs = Some r"
proof (induction "N - n" arbitrary: n oldgs rule: less_induct)
  case less
  let ?CE = "counterexamples_of_order f1 f2 b1 b2"
  note nN = less.prems(1) and reps = less.prems(2)
  from counterexamples_up_reps [OF lib ih pr reps] obtain gs where
    up: "counterexamples_up lib f1 f2 b1 b2 (n + 1) oldgs = Inr gs"
    and rg: "representatives gs (?CE (n + 1))" by blast
  show ?case
  proof (cases "length gs = 0")
    case True
    have "extremals_loop lib f1 f2 b1 b2 (n + 1) oldgs = Some (Inr (n + 1, oldgs))"
      by (subst extremals_loop.simps) (use up True in simp)
    then show ?thesis by blast
  next
    case False
    then have gne: "gs \<noteq> []" by simp
    have "?CE (n + 1) \<noteq> {}" by (rule representatives_nonempty [OF rg gne])
    then have "n + 1 \<noteq> N" using empty by blast
    then have lt: "n + 1 < N" using nN by simp
    have "N - (n + 1) < N - n" using nN by simp
    from less.hyps [OF this lt rg] obtain r where
      "extremals_loop lib f1 f2 b1 b2 (n + 1 + 1) gs = Some r" by blast
    moreover have "extremals_loop lib f1 f2 b1 b2 (n + 1) oldgs =
        extremals_loop lib f1 f2 b1 b2 (n + 1 + 1) gs"
      by (subst extremals_loop.simps) (use up False in simp)
    ultimately show ?thesis by simp
  qed
qed

lemma extremals_returns:
  assumes lib: "isograph_contract lib"
    and ih: "induced_hereditary f1" "induced_hereditary f2"
    and pr: "is_predicate f1" "is_predicate f2"
    and empty: "counterexamples_of_order f1 f2 b1 b2 N = {}"
  shows "\<exists>r. extremals lib f1 f2 b1 b2 = Some r"
proof -
  let ?CE = "counterexamples_of_order f1 f2 b1 b2"
  from counterexamples_zero_reps [OF lib pr] obtain gs0 where
    z: "counterexamples_zero lib f1 f2 b1 b2 = Inr gs0"
    and r0: "representatives gs0 (?CE 0)" by blast
  show ?thesis
  proof (cases "length gs0 = 0")
    case True
    then show ?thesis using z by (simp add: extremals_def)
  next
    case False
    then have ne: "gs0 \<noteq> []" by simp
    have "?CE 0 \<noteq> {}" by (rule representatives_nonempty [OF r0 ne])
    then have "N \<noteq> 0" using empty by auto
    then have "0 < N" by simp
    from extremals_loop_returns [OF lib ih pr empty this r0] obtain r where
      "extremals_loop lib f1 f2 b1 b2 (0 + 1) gs0 = Some r" by blast
    then show ?thesis using z False by (simp add: extremals_def)
  qed
qed

lemma extremals_zero:
  assumes lib: "isograph_contract lib" and pr: "is_predicate f1" "is_predicate f2"
    and empty: "counterexamples_of_order f1 f2 b1 b2 0 = {}"
  shows "extremals lib f1 f2 b1 b2 = Some (Inr (0, []))"
proof -
  from counterexamples_zero_reps [OF lib pr] obtain gs0 where
    z: "counterexamples_zero lib f1 f2 b1 b2 = Inr gs0"
    and r0: "representatives gs0 (counterexamples_of_order f1 f2 b1 b2 0)" by blast
  have "gs0 = []" using r0 empty by (cases gs0) (auto simp: representatives_def)
  then show ?thesis using z by (simp add: extremals_def)
qed

text \<open>With the sizes 2 and 2, no graph of order 2 is a counterexample graph for
  \<open>is_independent\<close> and \<open>is_clique\<close>: its two vertices are adjacent or they are not.\<close>

lemma no_counterexample_order_2:
  "counterexamples_of_order is_independent is_clique 2 2 2 = {}"
proof -
  have "\<not> counterexample is_independent is_clique 2 2 g" if len: "length g = 2" for g
  proof
    assume ce: "counterexample is_independent is_clique 2 2 g"
    then have wf: "wf_graph g" and ni: "\<not> contains_fset is_independent 2 g"
      and nc: "\<not> contains_fset is_clique 2 g" by (simp_all add: counterexample_def)
    have vs: "vertex_subset g [0, 1]" using len by (simp add: vertex_subset_def)
    have l0: "0 \<notin> set (g ! 0)" and l1: "1 \<notin> set (g ! 1)"
      using wf_graphD(2) [OF wf, of 0] wf_graphD(2) [OF wf, of 1] len by simp_all
    have sym: "1 \<in> set (g ! 0) \<longleftrightarrow> 0 \<in> set (g ! 1)"
      using wf_graphD(4) [OF wf, of 0 1] wf_graphD(4) [OF wf, of 1 0] len by auto
    show False
    proof (cases "1 \<in> set (g ! 0)")
      case True
      then have "is_clique g [0, 1] = Inr True"
        using sym is_clique_total [OF vs] by auto
      then have "contains_fset is_clique 2 g"
        unfolding contains_fset_def using vs by (intro exI [of _ "[0, 1]"]) simp
      then show False using nc by simp
    next
      case False
      have two: "set [0, 1 :: nat] = {0, 1}" by simp
      have "\<forall>v \<in> set [0, 1 :: nat]. \<forall>x \<in> set (g ! v). x \<notin> set [0, 1 :: nat]"
        unfolding two using False sym l0 l1 by blast
      then have "is_independent g [0, 1] = Inr True"
        using is_independent_total [OF vs] by simp
      then have "contains_fset is_independent 2 g"
        unfolding contains_fset_def using vs by (intro exI [of _ "[0, 1]"]) simp
      then show False using ni by simp
    qed
  qed
  then show ?thesis by (auto simp: counterexamples_of_order_def)
qed

text \<open>With the size 0 every graph contains an independent set of that size, the empty
  one, so that no graph is a counterexample graph.\<close>

lemma no_counterexample_size_0:
  "counterexamples_of_order is_independent is_clique 0 2 0 = {}"
proof -
  have vs: "vertex_subset g []" for g by (simp add: vertex_subset_def)
  have "contains_fset is_independent 0 g" for g
    unfolding contains_fset_def
    using vs [of g] is_independent_total [OF vs, of g] by (intro exI [of _ "[]"]) simp
  then show ?thesis by (simp add: counterexamples_of_order_def counterexample_def)
qed

section \<open>A search that never returns\<close>

lemma wf_graph_edgeless: "wf_graph (replicate n [])"
  by (rule wf_graphI) simp_all

lemma complete_counterexample:
  "complement (replicate n []) \<in> counterexamples_of_order is_independent is_independent 2 2 n"
proof -
  let ?K = "complement (replicate n [])"
  have wf: "wf_graph ?K" by (rule wf_complement [OF wf_graph_edgeless])
  have len: "length ?K = n" by (simp add: length_complement)
  have no: "\<not> contains_fset is_independent 2 ?K"
  proof
    assume "contains_fset is_independent 2 ?K"
    then obtain s where s: "vertex_subset ?K s" "int (length s) = 2"
      "is_independent ?K s = Inr True" unfolding contains_fset_def by blast
    from s(2) obtain a b where ab: "s = [a, b]"
      by (cases s; cases "tl s"; cases "tl (tl s)") auto
    have r: "a < n" "b < n" "a < b" using s(1) ab len by (simp_all add: vertex_subset_def)
    have "b \<in> set (?K ! a)" using r by (simp add: set_nth_complement)
    moreover have "\<forall>v \<in> set s. \<forall>x \<in> set (?K ! v). x \<notin> set s"
      using s(3) is_independent_total [OF s(1)] by simp
    ultimately show False using ab by auto
  qed
  show ?thesis using wf len no by (simp add: counterexamples_of_order_def counterexample_def)
qed

lemma extremals_unbounded:
  assumes lib: "isograph_contract lib"
    and ih: "induced_hereditary f1" "induced_hereditary f2"
    and pr: "is_predicate f1" "is_predicate f2"
    and all: "\<forall>N. counterexamples_of_order f1 f2 b1 b2 N \<noteq> {}"
  shows "extremals lib f1 f2 b1 b2 = None"
proof (cases "extremals lib f1 f2 b1 b2")
  case None
  then show ?thesis .
next
  case (Some r)
  from extremals_result [OF lib ih pr Some]
  obtain n where "counterexamples_of_order f1 f2 b1 b2 n = {}" by blast
  then show ?thesis using all by blast
qed

section \<open>The result of \<open>extremals\<close>\<close>

text \<open>
  Claim C1, amended. Let the functions of \<open>isograph\<close> meet their contracts and let \<open>f1\<close>,
  \<open>f2\<close> be induced-hereditary predicates. If some order has no counterexample graph,
  then \<open>extremals\<close> returns, and it returns a pair \<open>(n, gs)\<close> such that a counterexample
  graph exists at every order below \<open>n\<close>, none exists at order \<open>n\<close>, \<open>gs\<close> is empty when
  \<open>n = 0\<close>, and otherwise \<open>gs\<close> holds exactly one representative of each isomorphism
  class of the counterexample graphs of order \<open>n - 1\<close>. When no counterexample graph
  exists even at order 0, the result is \<open>(0, [])\<close>. If counterexample graphs exist at
  every order, \<open>extremals\<close> does not return.
\<close>

theorem extremals_correct:
  "isograph_contract lib \<and> induced_hereditary f1 \<and> induced_hereditary f2 \<and>
   is_predicate f1 \<and> is_predicate f2 \<longrightarrow>
     ((\<exists>N. counterexamples_of_order f1 f2 b1 b2 N = {}) \<longrightarrow>
        (\<exists>n gs. extremals lib f1 f2 b1 b2 = Some (Inr (n, gs)) \<and>
           (\<forall>m < n. counterexamples_of_order f1 f2 b1 b2 m \<noteq> {}) \<and>
           counterexamples_of_order f1 f2 b1 b2 n = {} \<and>
           (n = 0 \<longrightarrow> gs = []) \<and>
           (1 \<le> n \<longrightarrow>
              representatives gs (counterexamples_of_order f1 f2 b1 b2 (n - 1))))) \<and>
     (counterexamples_of_order f1 f2 b1 b2 0 = {} \<longrightarrow>
        extremals lib f1 f2 b1 b2 = Some (Inr (0, []))) \<and>
     ((\<forall>N. counterexamples_of_order f1 f2 b1 b2 N \<noteq> {}) \<longrightarrow>
        extremals lib f1 f2 b1 b2 = None)"
proof (intro impI)
  let ?CE = "counterexamples_of_order f1 f2 b1 b2"
  assume a: "isograph_contract lib \<and> induced_hereditary f1 \<and> induced_hereditary f2 \<and>
    is_predicate f1 \<and> is_predicate f2"
  then have lib: "isograph_contract lib"
    and ih: "induced_hereditary f1" "induced_hereditary f2"
    and pr: "is_predicate f1" "is_predicate f2" by blast+
  have A: "\<exists>n gs. extremals lib f1 f2 b1 b2 = Some (Inr (n, gs)) \<and>
      (\<forall>m < n. ?CE m \<noteq> {}) \<and> ?CE n = {} \<and> (n = 0 \<longrightarrow> gs = []) \<and>
      (1 \<le> n \<longrightarrow> representatives gs (?CE (n - 1)))" if "\<exists>N. ?CE N = {}"
  proof -
    from that obtain N where "?CE N = {}" by blast
    from extremals_returns [OF lib ih pr this] obtain r where
      r: "extremals lib f1 f2 b1 b2 = Some r" by blast
    from extremals_result [OF lib ih pr r] show ?thesis using r by blast
  qed
  have B: "extremals lib f1 f2 b1 b2 = Some (Inr (0, []))" if "?CE 0 = {}"
    by (rule extremals_zero [OF lib pr that])
  have C: "extremals lib f1 f2 b1 b2 = None" if "\<forall>N. ?CE N \<noteq> {}"
    by (rule extremals_unbounded [OF lib ih pr that])
  show "((\<exists>N. ?CE N = {}) \<longrightarrow>
        (\<exists>n gs. extremals lib f1 f2 b1 b2 = Some (Inr (n, gs)) \<and>
           (\<forall>m < n. ?CE m \<noteq> {}) \<and> ?CE n = {} \<and> (n = 0 \<longrightarrow> gs = []) \<and>
           (1 \<le> n \<longrightarrow> representatives gs (?CE (n - 1))))) \<and>
     (?CE 0 = {} \<longrightarrow> extremals lib f1 f2 b1 b2 = Some (Inr (0, []))) \<and>
     ((\<forall>N. ?CE N \<noteq> {}) \<longrightarrow> extremals lib f1 f2 b1 b2 = None)"
    using A B C by blast
qed

theorem extremals_correct_witness:
  "isograph_contract model_isograph \<and> induced_hereditary is_independent \<and>
   induced_hereditary is_clique \<and> is_predicate is_independent \<and> is_predicate is_clique \<and>
   counterexamples_of_order is_independent is_clique 2 2 2 = {} \<and>
   extremals model_isograph is_independent is_clique 2 2 = Some (Inr (2, [[[]]])) \<and>
   counterexamples_of_order is_independent is_clique 2 2 0 \<noteq> {} \<and>
   counterexamples_of_order is_independent is_clique 2 2 1 \<noteq> {} \<and>
   representatives [[[]]] (counterexamples_of_order is_independent is_clique 2 2 1) \<and>
   counterexamples_of_order is_independent is_clique 0 2 0 = {} \<and>
   extremals model_isograph is_independent is_clique 0 2 = Some (Inr (0, [])) \<and>
   complement (replicate 3 []) \<in>
     counterexamples_of_order is_independent is_independent 2 2 3 \<and>
   extremals model_isograph is_independent is_independent 2 2 = None"
proof -
  let ?CE = "counterexamples_of_order is_independent is_clique 2 2"
  note h = model_contract induced_hereditary_is_independent induced_hereditary_is_clique
    is_predicate_is_independent is_predicate_is_clique
  note h' = model_contract induced_hereditary_is_independent
    is_predicate_is_independent
  have e2: "?CE 2 = {}" by (rule no_counterexample_order_2)
  have e: "extremals model_isograph is_independent is_clique 2 2 = Some (Inr (2, [[[]]]))"
    by code_simp
  from extremals_correct [of model_isograph is_independent is_clique 2 2] h e2
  obtain n gs where r: "extremals model_isograph is_independent is_clique 2 2 =
      Some (Inr (n, gs))"
    and b: "\<forall>m < n. ?CE m \<noteq> {}"
    and g: "1 \<le> n \<longrightarrow> representatives gs (?CE (n - 1))" by blast
  from r e have n: "n = 2" and gs: "gs = [[[]]]" by simp_all
  have c0: "?CE 0 \<noteq> {}" and c1: "?CE 1 \<noteq> {}" using b n by simp_all
  have rp: "representatives [[[]]] (?CE 1)" using g n gs by simp
  have z0: "counterexamples_of_order is_independent is_clique 0 2 0 = {}"
    by (rule no_counterexample_size_0)
  have z: "extremals model_isograph is_independent is_clique 0 2 = Some (Inr (0, []))"
    using extremals_correct [of model_isograph is_independent is_clique 0 2] h z0 by blast
  have k: "complement (replicate 3 []) \<in>
      counterexamples_of_order is_independent is_independent 2 2 3"
    by (rule complete_counterexample)
  have "\<forall>N. counterexamples_of_order is_independent is_independent 2 2 N \<noteq> {}"
    using complete_counterexample by blast
  then have u: "extremals model_isograph is_independent is_independent 2 2 = None"
    using extremals_correct [of model_isograph is_independent is_independent 2 2] h'
    by blast
  show ?thesis using h e2 e c0 c1 rp z0 z k u by blast
qed

text \<open>
  Claim C1 as stated fails: \<open>is_independent\<close> is an induced-hereditary predicate and 2
  is a nonnegative size, yet \<open>extremals(is_independent, is_independent, 2, 2)\<close> returns
  nothing. The complete graph of every order is a counterexample graph, so no level is
  ever empty.
\<close>

theorem extremals_never_returns:
  "extremals model_isograph is_independent is_independent 2 2 = None"
proof (cases "extremals model_isograph is_independent is_independent 2 2")
  case None
  then show ?thesis .
next
  case (Some r)
  from extremals_result [OF model_contract induced_hereditary_is_independent
      induced_hereditary_is_independent is_predicate_is_independent
      is_predicate_is_independent Some]
  obtain n where "counterexamples_of_order is_independent is_independent 2 2 n = {}"
    by blast
  then show ?thesis using complete_counterexample [of n] by simp
qed

lemma store_doctest:
  "store_candidate \<lparr>adj = [[1], [0]], grs = [[0, 1]]\<rparr> 0 [0, 1] 3 =
     Inr (\<lparr>adj = [[1], [0], [0, 1], [2], [1, 2], [2], [0, 2]], grs = [[0, 1], [2], [4, 6, 2]]\<rparr>, 2)"
  by code_simp

section \<open>Candidate generation leaves the parent graphs as they are\<close>

lemma extends_store_refl: "extends_store h h"
  by (simp add: extends_store_def)

lemma extends_store_trans:
  "extends_store h h1 \<Longrightarrow> extends_store h1 h2 \<Longrightarrow> extends_store h h2"
  unfolding extends_store_def by (metis (no_types, lifting) le_trans less_le_trans)

lemma graph_at_extends:
  assumes "extends_store h h'" "g < length (grs h)" "\<forall>r \<in> set (grs h ! g). r < length (adj h)"
  shows "graph_at h' g = graph_at h g"
proof -
  have "grs h' ! g = grs h ! g" using assms(1,2) by (simp add: extends_store_def)
  moreover have "\<forall>r \<in> set (grs h ! g). adj h' ! r = adj h ! r"
    using assms(1,3) by (simp add: extends_store_def)
  ultimately show ?thesis by (simp add: graph_at_def)
qed

lemma store_add_edges_frame:
  "store_add_edges h g vs m = Inr h' \<Longrightarrow>
   length (adj h) \<le> length (adj h') \<and> length (grs h') = length (grs h) \<and>
   (\<forall>a < length (adj h). adj h' ! a = adj h ! a) \<and>
   (\<forall>x < length (grs h). x \<noteq> g \<longrightarrow> grs h' ! x = grs h ! x)"
proof (induction vs arbitrary: h)
  case Nil
  then show ?case by simp
next
  case (Cons v vs)
  let ?h1 = "\<lparr>adj = adj h @ [[m], adj h ! (grs h ! g ! v) @ [m]],
    grs = (grs h)[g := (grs h ! g)[v := length (adj h) + 1]]\<rparr>"
  from Cons.prems have "store_add_edges ?h1 g vs m = Inr h'" by (simp split: if_splits)
  from Cons.IH [OF this]
  have 1: "length (adj ?h1) \<le> length (adj h')" "length (grs h') = length (grs ?h1)"
    and 2: "\<forall>a < length (adj ?h1). adj h' ! a = adj ?h1 ! a"
    and 3: "\<forall>x < length (grs ?h1). x \<noteq> g \<longrightarrow> grs h' ! x = grs ?h1 ! x"
    by blast+
  have "length (adj h) \<le> length (adj h')" using 1(1) by simp
  moreover have "length (grs h') = length (grs h)" using 1(2) by simp
  moreover have "\<forall>a < length (adj h). adj h' ! a = adj h ! a"
    using 2 by (simp add: nth_append)
  moreover have "\<forall>x < length (grs h). x \<noteq> g \<longrightarrow> grs h' ! x = grs h ! x"
    using 3 by simp
  ultimately show ?case by blast
qed

lemma store_candidate_frame:
  assumes "store_candidate h oldg vset n = Inr (h', g)"
  shows "extends_store h h'" and "g = length (grs h) + 1" and "g < length (grs h')"
proof -
  let ?h0 = "\<lparr>adj = adj h @ [vset],
    grs = grs h @ [[length (adj h)], grs h ! oldg @ [length (adj h)]]\<rparr>"
  from assms have run: "store_add_edges ?h0 (length (grs h) + 1) vset (n - 1) = Inr h'"
    and g: "g = length (grs h) + 1"
    by (auto simp: store_candidate_def split: sum.splits)
  from store_add_edges_frame [OF run]
  have 1: "length (adj ?h0) \<le> length (adj h')" "length (grs h') = length (grs ?h0)"
    and 2: "\<forall>a < length (adj ?h0). adj h' ! a = adj ?h0 ! a"
    and 3: "\<forall>x < length (grs ?h0). x \<noteq> length (grs h) + 1 \<longrightarrow> grs h' ! x = grs ?h0 ! x"
    by blast+
  show "g = length (grs h) + 1" by (rule g)
  show "g < length (grs h')" using g 1(2) by simp
  show "extends_store h h'"
    unfolding extends_store_def
  proof (intro conjI allI impI)
    show "length (adj h) \<le> length (adj h')" using 1(1) by simp
    show "length (grs h) \<le> length (grs h')" using 1(2) by simp
  next
    fix a assume "a < length (adj h)"
    then show "adj h' ! a = adj h ! a" using 2 by (simp add: nth_append)
  next
    fix x assume "x < length (grs h)"
    then show "grs h' ! x = grs h ! x" using 3 by (simp add: nth_append)
  qed
qed

lemma store_extensions_frame:
  "store_extensions t h oldg vsets n = Inr (h', ys) \<Longrightarrow> extends_store h h'"
proof (induction vsets arbitrary: h ys)
  case Nil
  then show ?case by (simp add: extends_store_refl)
next
  case (Cons vset vsets)
  from Cons.prems obtain h1 g r where c: "store_candidate h oldg vset n = Inr (h1, g)"
    and rest: "store_extensions t h1 oldg vsets n = Inr (h', r)"
    by (auto split: sum.splits prod.splits)
  from store_candidate_frame(1) [OF c] Cons.IH [OF rest] show ?case
    by (rule extends_store_trans)
qed

lemma store_big_list_frame:
  "store_big_list lib f1 f2 n b1 b2 h old = Inr (h', ys) \<Longrightarrow> extends_store h h'"
proof (induction old arbitrary: h ys)
  case Nil
  then show ?case by (simp add: extends_store_refl)
next
  case (Cons oldg old)
  from Cons.prems obtain h1 r r' where
    e: "store_extensions (passes has_fset_with_last f1 f2 b1 b2) h oldg
          (powerset lib [0..<n - 1]) n = Inr (h1, r)"
    and rest: "store_big_list lib f1 f2 n b1 b2 h1 old = Inr (h', r')"
    by (auto split: sum.splits prod.splits)
  from store_extensions_frame [OF e] Cons.IH [OF rest] show ?case
    by (rule extends_store_trans)
qed

lemma store_ok_extends:
  assumes "store_ok h" "extends_store h h'" "g < length (grs h)"
  shows "graph_at h' g = graph_at h g"
  using graph_at_extends [OF assms(2,3)] assms(1,3) by (simp add: store_ok_def)

section \<open>The store computes the candidates of the model on values\<close>

lemma store_step_ok:
  assumes ok: "store_ok h" and g: "g < length (grs h)"
  shows "store_ok \<lparr>adj = adj h @ [[m], xs],
    grs = (grs h)[g := (grs h ! g)[v := length (adj h) + 1]]\<rparr>"
  unfolding store_ok_def
proof (intro allI impI ballI)
  fix x r
  assume x: "x < length (grs \<lparr>adj = adj h @ [[m], xs],
      grs = (grs h)[g := (grs h ! g)[v := length (adj h) + 1]]\<rparr>)"
    and r: "r \<in> set (grs \<lparr>adj = adj h @ [[m], xs],
      grs = (grs h)[g := (grs h ! g)[v := length (adj h) + 1]]\<rparr> ! x)"
  from x have xl: "x < length (grs h)" by simp
  have old: "\<forall>r \<in> set (grs h ! x). r < length (adj h)" using ok xl by (simp add: store_ok_def)
  have "r \<in> set (grs h ! x) \<or> r = length (adj h) + 1"
  proof (cases "x = g")
    case True
    then have "r \<in> set ((grs h ! g)[v := length (adj h) + 1])" using r g by simp
    then show ?thesis using True set_update_subset_insert [of "grs h ! g" v] by auto
  next
    case False
    then show ?thesis using r by simp
  qed
  then show "r < length (adj \<lparr>adj = adj h @ [[m], xs],
      grs = (grs h)[g := (grs h ! g)[v := length (adj h) + 1]]\<rparr>)"
    using old by auto
qed

lemma store_step_value:
  assumes ok: "store_ok h" and g: "g < length (grs h)" and v: "v < length (grs h ! g)"
  shows "graph_at \<lparr>adj = adj h @ [[m], adj h ! (grs h ! g ! v) @ [m]],
      grs = (grs h)[g := (grs h ! g)[v := length (adj h) + 1]]\<rparr> g =
    (graph_at h g)[v := graph_at h g ! v @ [m]]"
proof -
  let ?rs = "grs h ! g"
  let ?A = "adj h @ [[m], adj h ! (?rs ! v) @ [m]]"
  have valid: "\<forall>r \<in> set ?rs. r < length (adj h)" using ok g by (simp add: store_ok_def)
  have same: "map (\<lambda>r. ?A ! r) ?rs = map (\<lambda>r. adj h ! r) ?rs"
    using valid by (simp add: nth_append)
  have new: "?A ! (length (adj h) + 1) = adj h ! (?rs ! v) @ [m]"
    by (simp add: nth_append)
  have "map (\<lambda>r. ?A ! r) (?rs[v := length (adj h) + 1]) =
      (map (\<lambda>r. ?A ! r) ?rs)[v := ?A ! (length (adj h) + 1)]"
    by (rule map_update)
  also have "\<dots> = (map (\<lambda>r. adj h ! r) ?rs)[v := adj h ! (?rs ! v) @ [m]]"
    by (simp only: same new)
  finally show ?thesis using g v by (simp add: graph_at_def)
qed

lemma store_add_edges_ok:
  "store_ok h \<Longrightarrow> g < length (grs h) \<Longrightarrow> store_add_edges h g vs m = Inr h' \<Longrightarrow>
   store_ok h'"
proof (induction vs arbitrary: h)
  case Nil
  then show ?case by simp
next
  case (Cons v vs)
  let ?h1 = "\<lparr>adj = adj h @ [[m], adj h ! (grs h ! g ! v) @ [m]],
    grs = (grs h)[g := (grs h ! g)[v := length (adj h) + 1]]\<rparr>"
  from Cons.prems(3) have run: "store_add_edges ?h1 g vs m = Inr h'"
    by (simp split: if_splits)
  have ok1: "store_ok ?h1" by (rule store_step_ok [OF Cons.prems(1,2)])
  have g1: "g < length (grs ?h1)" using Cons.prems(2) by simp
  show ?case by (rule Cons.IH [OF ok1 g1 run])
qed

lemma store_add_edges_refines:
  "store_ok h \<Longrightarrow> g < length (grs h) \<Longrightarrow>
   (case store_add_edges h g vs m of
      Inl e \<Rightarrow> add_edges (graph_at h g) vs m = Inl e
    | Inr h' \<Rightarrow> add_edges (graph_at h g) vs m = Inr (graph_at h' g))"
proof (induction vs arbitrary: h)
  case Nil
  then show ?case by simp
next
  case (Cons v vs)
  have len: "length (graph_at h g) = length (grs h ! g)" by (simp add: graph_at_def)
  show ?case
  proof (cases "v < length (grs h ! g)")
    case False
    then show ?thesis using len by simp
  next
    case True
    let ?h1 = "\<lparr>adj = adj h @ [[m], adj h ! (grs h ! g ! v) @ [m]],
      grs = (grs h)[g := (grs h ! g)[v := length (adj h) + 1]]\<rparr>"
    have ok1: "store_ok ?h1" by (rule store_step_ok [OF Cons.prems])
    have g1: "g < length (grs ?h1)" using Cons.prems(2) by simp
    have val: "graph_at ?h1 g = (graph_at h g)[v := graph_at h g ! v @ [m]]"
      by (rule store_step_value [OF Cons.prems True])
    have s: "store_add_edges h g (v # vs) m = store_add_edges ?h1 g vs m"
      using True by simp
    have p: "add_edges (graph_at h g) (v # vs) m = add_edges (graph_at ?h1 g) vs m"
      using True len val by simp
    show ?thesis unfolding s p by (rule Cons.IH [OF ok1 g1])
  qed
qed

lemma store_candidate_refines:
  assumes ok: "store_ok h" and o: "oldg < length (grs h)"
  shows "case store_candidate h oldg vset n of
      Inl e \<Rightarrow> candidate (graph_at h oldg) vset n = Inl e
    | Inr (h', g) \<Rightarrow> candidate (graph_at h oldg) vset n = Inr (graph_at h' g) \<and> store_ok h'"
proof -
  let ?h0 = "\<lparr>adj = adj h @ [vset],
    grs = grs h @ [[length (adj h)], grs h ! oldg @ [length (adj h)]]\<rparr>"
  let ?g = "length (grs h) + 1"
  have valid: "\<forall>x < length (grs h). \<forall>r \<in> set (grs h ! x). r < length (adj h)"
    using ok by (simp add: store_ok_def)
  have ok0: "store_ok ?h0"
    unfolding store_ok_def
  proof (intro allI impI ballI)
    fix x r assume x: "x < length (grs ?h0)" and r: "r \<in> set (grs ?h0 ! x)"
    then consider "x < length (grs h)" | "x = length (grs h)" | "x = length (grs h) + 1"
      by (auto simp: less_Suc_eq)
    then show "r < length (adj ?h0)"
    proof cases
      case 1
      then have "r \<in> set (grs h ! x)" using r by (simp add: nth_append)
      then have "r < length (adj h)" using valid 1 by blast
      then show ?thesis by simp
    next
      case 2
      then show ?thesis using r by (simp add: nth_append)
    next
      case 3
      then have "r \<in> set (grs h ! oldg) \<or> r = length (adj h)"
        using r by (auto simp: nth_append)
      moreover have "r < length (adj h)" if "r \<in> set (grs h ! oldg)"
        using valid o that by blast
      ultimately show ?thesis by auto
    qed
  qed
  have g0: "?g < length (grs ?h0)" by simp
  have "grs ?h0 ! ?g = grs h ! oldg @ [length (adj h)]" by (simp add: nth_append)
  moreover have "map (\<lambda>r. adj ?h0 ! r) (grs h ! oldg) = map (\<lambda>r. adj h ! r) (grs h ! oldg)"
    using valid o by (simp add: nth_append)
  ultimately have val0: "graph_at ?h0 ?g = graph_at h oldg @ [vset]"
    by (simp add: graph_at_def)
  have ref: "case store_add_edges ?h0 ?g vset (n - 1) of
      Inl e \<Rightarrow> add_edges (graph_at ?h0 ?g) vset (n - 1) = Inl e
    | Inr h' \<Rightarrow> add_edges (graph_at ?h0 ?g) vset (n - 1) = Inr (graph_at h' ?g)"
    by (rule store_add_edges_refines [OF ok0 g0])
  show ?thesis
  proof (cases "store_add_edges ?h0 ?g vset (n - 1)")
    case (Inl e)
    then show ?thesis using ref val0 by (simp add: store_candidate_def candidate_def)
  next
    case (Inr h')
    have "store_ok h'" by (rule store_add_edges_ok [OF ok0 g0 Inr])
    then show ?thesis using Inr ref val0 by (simp add: store_candidate_def candidate_def)
  qed
qed

lemma extends_store_length: "extends_store h h' \<Longrightarrow> g < length (grs h) \<Longrightarrow> g < length (grs h')"
  by (simp add: extends_store_def)

lemma store_extensions_refines:
  "store_ok h \<Longrightarrow> oldg < length (grs h) \<Longrightarrow>
   (case store_extensions t h oldg vsets n of
      Inl e \<Rightarrow> extensions t (graph_at h oldg) vsets n = Inl e
    | Inr (h', ys) \<Rightarrow>
        extensions t (graph_at h oldg) vsets n = Inr (map (graph_at h') ys) \<and>
        store_ok h' \<and> (\<forall>y \<in> set ys. y < length (grs h')))"
proof (induction vsets arbitrary: h)
  case Nil
  then show ?case by simp
next
  case (Cons vset vsets)
  note ok = Cons.prems(1) and og = Cons.prems(2)
  note c = store_candidate_refines [OF ok og, of vset n]
  show ?case
  proof (cases "store_candidate h oldg vset n")
    case (Inl e)
    then show ?thesis using c by simp
  next
    case (Inr p)
    obtain h1 g where p: "p = (h1, g)" by (cases p)
    have sc: "store_candidate h oldg vset n = Inr (h1, g)" using Inr p by simp
    have pc: "candidate (graph_at h oldg) vset n = Inr (graph_at h1 g)" and ok1: "store_ok h1"
      using c sc by simp_all
    note ext1 = store_candidate_frame(1) [OF sc] and g1 = store_candidate_frame(3) [OF sc]
    have o1: "oldg < length (grs h1)" by (rule extends_store_length [OF ext1 og])
    have old1: "graph_at h1 oldg = graph_at h oldg" by (rule store_ok_extends [OF ok ext1 og])
    show ?thesis
    proof (cases "t (graph_at h1 g)")
      case (Inl e)
      then show ?thesis using sc pc by simp
    next
      case keep: (Inr keep)
      note IH = Cons.IH [OF ok1 o1]
      show ?thesis
      proof (cases "store_extensions t h1 oldg vsets n")
        case (Inl e)
        then have "extensions t (graph_at h oldg) vsets n = Inl e" using IH old1 by simp
        then show ?thesis using sc pc keep Inl by simp
      next
        case (Inr q)
        obtain h2 r where q: "q = (h2, r)" by (cases q)
        have se: "store_extensions t h1 oldg vsets n = Inr (h2, r)" using Inr q by simp
        have pe: "extensions t (graph_at h oldg) vsets n = Inr (map (graph_at h2) r)"
          and ok2: "store_ok h2" and r2: "\<forall>y \<in> set r. y < length (grs h2)"
          using IH se old1 by simp_all
        note ext2 = store_extensions_frame [OF se]
        have gv: "graph_at h2 g = graph_at h1 g" by (rule store_ok_extends [OF ok1 ext2 g1])
        have g2: "g < length (grs h2)" by (rule extends_store_length [OF ext2 g1])
        show ?thesis using sc pc keep se pe ok2 r2 gv g2 by simp
      qed
    qed
  qed
qed

lemma map_graph_at_extends:
  assumes "store_ok h" "extends_store h h'" "\<forall>y \<in> set ys. y < length (grs h)"
  shows "map (graph_at h') ys = map (graph_at h) ys"
  using assms(3) store_ok_extends [OF assms(1,2)] by simp

lemma store_big_list_refines:
  "store_ok h \<Longrightarrow> \<forall>x \<in> set old. x < length (grs h) \<Longrightarrow>
   (case store_big_list lib f1 f2 n b1 b2 h old of
      Inl e \<Rightarrow> counterexamples_up_big_list lib f1 f2 n b1 b2 (map (graph_at h) old) = Inl e
    | Inr (h', ys) \<Rightarrow>
        counterexamples_up_big_list lib f1 f2 n b1 b2 (map (graph_at h) old) =
          Inr (map (graph_at h') ys) \<and>
        store_ok h' \<and> (\<forall>y \<in> set ys. y < length (grs h')))"
proof (induction old arbitrary: h)
  case Nil
  then show ?case by simp
next
  case (Cons oldg old)
  let ?t = "passes has_fset_with_last f1 f2 b1 b2"
  let ?ps = "powerset lib [0..<n - 1]"
  note ok = Cons.prems(1)
  have og: "oldg < length (grs h)" and rest: "\<forall>x \<in> set old. x < length (grs h)"
    using Cons.prems(2) by simp_all
  note e = store_extensions_refines [OF ok og, of ?t ?ps n]
  show ?case
  proof (cases "store_extensions ?t h oldg ?ps n")
    case (Inl x)
    then show ?thesis using e by simp
  next
    case (Inr p)
    obtain h1 r where p: "p = (h1, r)" by (cases p)
    have se: "store_extensions ?t h oldg ?ps n = Inr (h1, r)" using Inr p by simp
    have pe: "extensions ?t (graph_at h oldg) ?ps n = Inr (map (graph_at h1) r)"
      and ok1: "store_ok h1" and r1: "\<forall>y \<in> set r. y < length (grs h1)"
      using e se by simp_all
    note ext1 = store_extensions_frame [OF se]
    have rest1: "\<forall>x \<in> set old. x < length (grs h1)"
      using rest extends_store_length [OF ext1] by blast
    have old1: "map (graph_at h1) old = map (graph_at h) old"
      by (rule map_graph_at_extends [OF ok ext1 rest])
    note IH = Cons.IH [OF ok1 rest1]
    show ?thesis
    proof (cases "store_big_list lib f1 f2 n b1 b2 h1 old")
      case (Inl x)
      then have "counterexamples_up_big_list lib f1 f2 n b1 b2 (map (graph_at h) old) = Inl x"
        using IH old1 by simp
      then show ?thesis using se pe Inl by simp
    next
      case (Inr q)
      obtain h2 r' where q: "q = (h2, r')" by (cases q)
      have sb: "store_big_list lib f1 f2 n b1 b2 h1 old = Inr (h2, r')" using Inr q by simp
      have pb: "counterexamples_up_big_list lib f1 f2 n b1 b2 (map (graph_at h) old) =
          Inr (map (graph_at h2) r')"
        and ok2: "store_ok h2" and r2: "\<forall>y \<in> set r'. y < length (grs h2)"
        using IH sb old1 by simp_all
      note ext2 = store_big_list_frame [OF sb]
      have rv: "map (graph_at h2) r = map (graph_at h1) r"
        by (rule map_graph_at_extends [OF ok1 ext2 r1])
      have r12: "\<forall>y \<in> set r. y < length (grs h2)"
        using r1 extends_store_length [OF ext2] by blast
      have all: "\<forall>y \<in> set (r @ r'). y < length (grs h2)" using r12 r2 by auto
      have val: "map (graph_at h2) (r @ r') = map (graph_at h1) r @ map (graph_at h2) r'"
        using rv by simp
      show ?thesis using se pe sb pb ok2 all val by simp
    qed
  qed
qed

text \<open>
  Claim C8. When \<open>_counterexamples_up\<close> has run on the graph objects \<open>old\<close>, every object
  that the store held before is as it was, so every graph of \<open>old\<close> has the value it had
  before; the graphs returned are those that the model on values computes from the
  values of \<open>old\<close>, and it raises exactly when that model does.
\<close>

theorem parents_unchanged:
  "(store_counterexamples_up lib f1 f2 b1 b2 n h old = Inr (h', gs) \<longrightarrow>
      extends_store h h') \<and>
   (store_ok h \<and> (\<forall>g \<in> set old. g < length (grs h)) \<and>
    store_counterexamples_up lib f1 f2 b1 b2 n h old = Inr (h', gs) \<longrightarrow>
      map (graph_at h') old = map (graph_at h) old \<and>
      counterexamples_up lib f1 f2 b1 b2 n (map (graph_at h) old) = Inr gs) \<and>
   (store_ok h \<and> (\<forall>g \<in> set old. g < length (grs h)) \<and>
    store_counterexamples_up lib f1 f2 b1 b2 n h old = Inl e \<longrightarrow>
      counterexamples_up lib f1 f2 b1 b2 n (map (graph_at h) old) = Inl e)"
proof (intro conjI impI)
  assume "store_counterexamples_up lib f1 f2 b1 b2 n h old = Inr (h', gs)"
  then obtain ys where "store_big_list lib f1 f2 n b1 b2 h old = Inr (h', ys)"
    by (auto simp: store_counterexamples_up_def split: sum.splits)
  then show "extends_store h h'" by (rule store_big_list_frame)
next
  assume a: "store_ok h \<and> (\<forall>g \<in> set old. g < length (grs h)) \<and>
    store_counterexamples_up lib f1 f2 b1 b2 n h old = Inr (h', gs)"
  then obtain ys where sb: "store_big_list lib f1 f2 n b1 b2 h old = Inr (h', ys)"
    by (auto simp: store_counterexamples_up_def split: sum.splits)
  from a have ok: "store_ok h" and old: "\<forall>g \<in> set old. g < length (grs h)" by simp_all
  show "map (graph_at h') old = map (graph_at h) old"
    by (rule map_graph_at_extends [OF ok store_big_list_frame [OF sb] old])
next
  assume a: "store_ok h \<and> (\<forall>g \<in> set old. g < length (grs h)) \<and>
    store_counterexamples_up lib f1 f2 b1 b2 n h old = Inr (h', gs)"
  then obtain ys where sb: "store_big_list lib f1 f2 n b1 b2 h old = Inr (h', ys)"
    and gs: "gs = unique_iso lib (map (graph_at h') ys)"
    by (auto simp: store_counterexamples_up_def split: sum.splits)
  from a have ok: "store_ok h" and old: "\<forall>g \<in> set old. g < length (grs h)" by simp_all
  from store_big_list_refines [OF ok old, of lib f1 f2 n b1 b2] sb
  have "counterexamples_up_big_list lib f1 f2 n b1 b2 (map (graph_at h) old) =
      Inr (map (graph_at h') ys)" by simp
  then show "counterexamples_up lib f1 f2 b1 b2 n (map (graph_at h) old) = Inr gs"
    using gs by (simp add: counterexamples_up_def)
next
  assume a: "store_ok h \<and> (\<forall>g \<in> set old. g < length (grs h)) \<and>
    store_counterexamples_up lib f1 f2 b1 b2 n h old = Inl e"
  then have sb: "store_big_list lib f1 f2 n b1 b2 h old = Inl e"
    by (auto simp: store_counterexamples_up_def split: sum.splits)
  from a have ok: "store_ok h" and old: "\<forall>g \<in> set old. g < length (grs h)" by simp_all
  from store_big_list_refines [OF ok old, of lib f1 f2 n b1 b2] sb
  have "counterexamples_up_big_list lib f1 f2 n b1 b2 (map (graph_at h) old) = Inl e"
    by simp
  then show "counterexamples_up lib f1 f2 b1 b2 n (map (graph_at h) old) = Inl e"
    by (simp add: counterexamples_up_def)
qed

theorem parents_unchanged_witness:
  "store_ok \<lparr>adj = [[]], grs = [[0]]\<rparr> \<and>
   list_all (\<lambda>g. g < length (grs \<lparr>adj = [[]], grs = [[0]]\<rparr>)) [0] \<and>
   store_counterexamples_up model_isograph is_independent is_clique 3 3 2
       \<lparr>adj = [[]], grs = [[0]]\<rparr> [0] =
     Inr (\<lparr>adj = [[], [], [0], [1], [1]], grs = [[0], [1], [0, 1], [2], [4, 2]]\<rparr>,
          [[[], []], [[1], [0]]]) \<and>
   extends_store \<lparr>adj = [[]], grs = [[0]]\<rparr>
     \<lparr>adj = [[], [], [0], [1], [1]], grs = [[0], [1], [0, 1], [2], [4, 2]]\<rparr> \<and>
   map (graph_at \<lparr>adj = [[], [], [0], [1], [1]], grs = [[0], [1], [0, 1], [2], [4, 2]]\<rparr>) [0] =
     map (graph_at \<lparr>adj = [[]], grs = [[0]]\<rparr>) [0] \<and>
   counterexamples_up model_isograph is_independent is_clique 3 3 2
       (map (graph_at \<lparr>adj = [[]], grs = [[0]]\<rparr>) [0]) =
     Inr [[[], []], [[1], [0]]] \<and>
   store_counterexamples_up model_isograph is_independent is_clique 3 3 4
       \<lparr>adj = [[]], grs = [[0]]\<rparr> [0] = Inl IndexError \<and>
   counterexamples_up model_isograph is_independent is_clique 3 3 4
       (map (graph_at \<lparr>adj = [[]], grs = [[0]]\<rparr>) [0]) = Inl IndexError"
proof -
  let ?h = "\<lparr>adj = [[]], grs = [[0]]\<rparr>"
  let ?h' = "\<lparr>adj = [[], [], [0], [1], [1]], grs = [[0], [1], [0, 1], [2], [4, 2]]\<rparr>"
  let ?gs = "[[[], []], [[1], [0]]] :: graph list"
  have ok: "store_ok ?h" by code_simp
  have old: "\<forall>g \<in> set [0]. g < length (grs ?h)" by simp
  have old': "list_all (\<lambda>g. g < length (grs ?h)) [0]" by simp
  have run: "store_counterexamples_up model_isograph is_independent is_clique 3 3 2 ?h [0] =
      Inr (?h', ?gs)" by code_simp
  have err: "store_counterexamples_up model_isograph is_independent is_clique 3 3 4 ?h [0] =
      Inl IndexError" by code_simp
  note T = parents_unchanged
    [of model_isograph is_independent is_clique 3 3 2 ?h "[0]" ?h' ?gs]
  note E = parents_unchanged
    [of model_isograph is_independent is_clique 3 3 4 ?h "[0]" _ _ IndexError]
  have e: "extends_store ?h ?h'" using T run by blast
  have v: "map (graph_at ?h') [0] = map (graph_at ?h) [0] \<and>
      counterexamples_up model_isograph is_independent is_clique 3 3 2
        (map (graph_at ?h) [0]) = Inr ?gs"
    using T ok old run by blast
  have r: "counterexamples_up model_isograph is_independent is_clique 3 3 4
      (map (graph_at ?h) [0]) = Inl IndexError"
    using E ok old err by blast
  show ?thesis using ok old' run e v err r by blast
qed

text \<open>The variant with \<^verbatim>\<open>append\<close> does change the parent: after the concatenation
  the candidate (object 2) shares its first two adjacency lists with the parent
  (object 0), and appending to them in place changes the value of the parent.\<close>

lemma append_changes_parent:
  "store_append_edges \<lparr>adj = [[1], [0], [0, 1]], grs = [[0, 1], [2], [0, 1, 2]]\<rparr> 2 [0, 1] 2 =
     Inr \<lparr>adj = [[1, 2], [0, 2], [0, 1]], grs = [[0, 1], [2], [0, 1, 2]]\<rparr> \<and>
   graph_at \<lparr>adj = [[1], [0], [0, 1]], grs = [[0, 1], [2], [0, 1, 2]]\<rparr> 0 = [[1], [0]] \<and>
   graph_at \<lparr>adj = [[1, 2], [0, 2], [0, 1]], grs = [[0, 1], [2], [0, 1, 2]]\<rparr> 0 =
     [[1, 2], [0, 2]]"
  by code_simp

text \<open>The doctest of \<open>_counterexamples_up\<close>: the 5-cycle, the one counterexample graph of
  order 5 for the sizes 3 and 3, has no extension of order 6.\<close>

lemma counterexamples_up_doctest:
  "counterexamples_up model_isograph is_independent is_clique 3 3 6
     [[[1, 2], [0, 3], [0, 4], [1, 4], [2, 3]]] = Inr []"
  by code_simp

end
